theory Spec2Isabelle
  imports
    Main
    "HOL-Library.Word"
    "HOL-Library.List_Lexorder"
    "HOL-Library.Finite_Map"
    "HOL-Library.Signed_Division"
begin

section \<open>Keys\<close>

text \<open>
  A \<^verbatim>\<open>kv.Key\<close> is a Go byte slice. Keys are compared bytewise
  (\<^verbatim>\<open>bytes.Compare\<close>), which is the lexicographic order that
  \<^verbatim>\<open>HOL-Library.List_Lexorder\<close> puts on lists: a proper prefix is smaller.
  A nil slice and an empty slice have the same length and the same bytes, so both are
  the empty list here; the one function of the file that tells them apart
  (\<^verbatim>\<open>iterateSnapshotKeys\<close>, by \<^verbatim>\<open>== nil\<close>) takes an optional key.
\<close>

type_synonym byte = "8 word"
type_synonym key = "byte list"

text \<open>
  Go's \<^verbatim>\<open>int\<close> is 64 bits wide. Task ids are indices of a batch of at most
  \<^verbatim>\<open>backfillTaskChanSize\<close> tasks and row counts are far below \<open>2^63\<close>, so
  nothing in this file wraps and \<^verbatim>\<open>int\<close> is modelled as \<^typ>\<open>int\<close>.
\<close>

section \<open>The done-task keeper\<close>

text \<open>
  \<^verbatim>\<open>doneTaskKeeper\<close> (backfilling.go, 993-1024). The Go map is a finite map.
\<close>

record doneTaskKeeper =
  doneTaskNextKey :: "(int, key) fmap"
  current :: int
  nextKey :: key

definition newDoneTaskKeeper :: "key \<Rightarrow> doneTaskKeeper" where
  "newDoneTaskKeeper start =
     \<lparr>doneTaskNextKey = fmempty, current = 0, nextKey = start\<rparr>"

text \<open>
  The inner \<^verbatim>\<open>for\<close> loop of \<^verbatim>\<open>updateNextKey\<close>: while the map holds an
  entry for \<^verbatim>\<open>n.current\<close>, delete it, advance \<^verbatim>\<open>current\<close> and take its key.
  Each round removes one entry of a finite map, which is the termination argument.
\<close>

function drainDoneTasks :: "doneTaskKeeper \<Rightarrow> doneTaskKeeper" where
  "drainDoneTasks n =
     (case fmlookup (doneTaskNextKey n) (current n) of
        Some nKey \<Rightarrow>
          drainDoneTasks
            (n\<lparr>doneTaskNextKey := fmdrop (current n) (doneTaskNextKey n),
               current := current n + 1,
               nextKey := nKey\<rparr>)
      | None \<Rightarrow> n)"
  by pat_completeness auto
termination
proof (relation "measure (\<lambda>n. fcard (fmdom (doneTaskNextKey n)))")
  show "wf (measure (\<lambda>n. fcard (fmdom (doneTaskNextKey n))))"
    by simp
next
  fix n :: doneTaskKeeper and nKey
  assume "fmlookup (doneTaskNextKey n) (current n) = Some nKey"
  then have "current n |\<in>| fmdom (doneTaskNextKey n)"
    by (rule fmdomI)
  then have "fcard (fmdom (doneTaskNextKey n) |-| {|current n|})
               < fcard (fmdom (doneTaskNextKey n))"
    by (rule fcard_fminus1_less)
  then show "(n\<lparr>doneTaskNextKey := fmdrop (current n) (doneTaskNextKey n),
                 current := current n + 1, nextKey := nKey\<rparr>, n)
             \<in> measure (\<lambda>n. fcard (fmdom (doneTaskNextKey n)))"
    by simp
qed

declare drainDoneTasks.simps [simp del]

definition updateNextKey :: "doneTaskKeeper \<Rightarrow> int \<Rightarrow> key \<Rightarrow> doneTaskKeeper" where
  "updateNextKey n doneTaskID next =
     (if doneTaskID = current n
      then drainDoneTasks (n\<lparr>current := current n + 1, nextKey := next\<rparr>)
      else n\<lparr>doneTaskNextKey := fmupd doneTaskID next (doneTaskNextKey n)\<rparr>)"

text \<open>A sequence of calls \<^verbatim>\<open>updateNextKey(id, key)\<close> on one keeper, in order.\<close>

fun updateNextKeys :: "doneTaskKeeper \<Rightarrow> (int \<times> key) list \<Rightarrow> doneTaskKeeper" where
  "updateNextKeys n [] = n"
| "updateNextKeys n ((doneTaskID, next) # calls) =
     updateNextKeys (updateNextKey n doneTaskID next) calls"

section \<open>Operations on keys\<close>

text \<open>
  Modelled from the spec: the methods \<^verbatim>\<open>Next\<close>, \<^verbatim>\<open>PrefixNext\<close>, \<^verbatim>\<open>Cmp\<close> and
  \<^verbatim>\<open>HasPrefix\<close> of \<^verbatim>\<open>kv.Key\<close> belong to package \<^verbatim>\<open>kv\<close>, whose code is not
  among the source files. The spec (section 3) gives them as: \<^verbatim>\<open>Next()\<close>, the smallest
  strictly greater key; \<^verbatim>\<open>PrefixNext()\<close>, the smallest key not having this as a prefix
  (that is, the smallest key greater than every key with this prefix); \<^verbatim>\<open>Cmp(other)\<close>,
  the comparison of a total order. On byte strings in bytewise order these are: append a
  zero byte; increment the last byte with carry to the left, and append a zero byte when
  every byte wraps around (or the key is empty); the three-way comparison.
\<close>

definition Next :: "key \<Rightarrow> key" where
  "Next k = k @ [0]"

definition Cmp :: "key \<Rightarrow> key \<Rightarrow> int" where
  "Cmp k other = (if k < other then - 1 else if k = other then 0 else 1)"

definition HasPrefix :: "key \<Rightarrow> key \<Rightarrow> bool" where
  "HasPrefix k prefix \<longleftrightarrow> length prefix \<le> length k \<and> take (length prefix) k = prefix"

text \<open>
  \<open>incrementFromRight\<close> works on the reversed key: it adds one to the first byte that
  does not wrap to zero, zeroing the bytes before it, and is \<open>None\<close> when all wrap.
\<close>

fun incrementFromRight :: "byte list \<Rightarrow> byte list option" where
  "incrementFromRight [] = None"
| "incrementFromRight (b # bs) =
     (if b + 1 \<noteq> 0 then Some ((b + 1) # bs)
      else map_option ((#) 0) (incrementFromRight bs))"

definition PrefixNext :: "key \<Rightarrow> key" where
  "PrefixNext k =
     (case incrementFromRight (rev k) of
        Some buf \<Rightarrow> rev buf
      | None \<Rightarrow> k @ [0])"

section \<open>Errors and aborts\<close>

text \<open>
  The error values the file names, and one constructor for every other error.
  \<^verbatim>\<open>ErrInvalidSplitRegionRanges\<close> carries the two keys its message is formatted from.
  \<^verbatim>\<open>errors.Trace\<close> only annotates an error with a stack and is the identity here.
  A Go \<^verbatim>\<open>error\<close> is an \<open>error option\<close>, \<open>None\<close> for \<^verbatim>\<open>nil\<close>.
\<close>

datatype error =
    ErrNotExist
  | ErrInvalidSplitRegionRanges key key
  | ErrReorgPanic
  | ErrDDLJobNotFound
  | ErrOther string

text \<open>
  Ways a call does not return: a run-time panic, or a receive on a channel on which
  nothing more arrives.
\<close>

datatype abort =
    PanicIndexOutOfRange
  | PanicDivideByZero
  | PanicMakeSliceCap
  | BlockedOnReceive

section \<open>Tasks and results\<close>

text \<open>
  Of a \<^verbatim>\<open>BackfillJob\<close> (declared in another file) the fields this file reads or writes
  outside \<^verbatim>\<open>runTask\<close>.
\<close>

record BackfillJob =
  JobID :: int
  CurrKey :: key
  InstanceID :: string
  InstanceLease :: int

text \<open>
  A \<^verbatim>\<open>table.PhysicalTable\<close>: its id and its two key prefixes. In the records below, a
  field whose name is also the name of a parameter or local variable of the source
  carries the prefix of its record: \<open>task_id\<close>, \<open>task_startKey\<close>, \<open>task_endKey\<close>,
  \<open>task_jobID\<close> and \<open>task_priority\<close> are the fields \<^verbatim>\<open>id\<close>, \<^verbatim>\<open>startKey\<close>,
  \<^verbatim>\<open>endKey\<close>, \<^verbatim>\<open>jobID\<close> and \<^verbatim>\<open>priority\<close> of a task, \<open>res_nextKey\<close> and
  \<open>res_err\<close> the fields \<^verbatim>\<open>nextKey\<close> and \<^verbatim>\<open>err\<close> of a result.
\<close>

record PhysicalTable =
  GetPhysicalID :: int
  RecordPrefix :: key
  IndexPrefix :: key

record reorgBackfillTask =
  bfJob :: "BackfillJob option"
  physicalTable :: PhysicalTable
  task_id :: int
  task_startKey :: key
  task_endKey :: key
  endInclude :: bool
  task_jobID :: int
  sqlQuery :: string
  task_priority :: int

definition getJobID :: "reorgBackfillTask \<Rightarrow> int" where
  "getJobID r = (case bfJob r of Some j \<Rightarrow> JobID j | None \<Rightarrow> task_jobID r)"

definition excludedEndKey :: "reorgBackfillTask \<Rightarrow> key" where
  "excludedEndKey r = (if endInclude r then Next (task_endKey r) else task_endKey r)"

record backfillResult =
  taskID :: int
  addedCount :: int
  scanCount :: int
  res_nextKey :: key
  res_err :: "error option"

section \<open>Collecting the results of a batch\<close>

text \<open>
  The \<^verbatim>\<open>backfillScheduler\<close> is declared in another file. Its state is a parameter
  \<open>'s\<close>, and the two methods \<^verbatim>\<open>waitTaskResults\<close> calls are parameters as well:
  \<^verbatim>\<open>workerSize()\<close> reads the state, \<^verbatim>\<open>adjustWorkerSize()\<close> changes it and may
  return an error. \<open>copReqSenderPool_set\<close> says whether \<^verbatim>\<open>copReqSenderPool\<close> is not nil.
\<close>

record 's backfillScheduler =
  workerSize :: "'s \<Rightarrow> int"
  adjustWorkerSize :: "'s \<Rightarrow> error option \<times> 's"
  copReqSenderPool_set :: "'s \<Rightarrow> bool"

text \<open>
  What \<^verbatim>\<open>waitTaskResults\<close> sees of the two channels: each receive from
  \<^verbatim>\<open>resultCh\<close> yields a result, and \<open>ev_taskCh\<close> is what \<^verbatim>\<open>taskCh\<close> still buffers at
  that moment (the tasks no worker has taken yet), which \<^verbatim>\<open>drainTasks\<close> would remove.
  The list of events is the order in which the results arrive.
\<close>

record resultEvent =
  ev_result :: backfillResult
  ev_taskCh :: "reorgBackfillTask list"

text \<open>\<^verbatim>\<open>drainTasks\<close>: receive while the channel is not empty, counting.\<close>

fun drainTasksFrom :: "int \<Rightarrow> reorgBackfillTask list \<Rightarrow> int" where
  "drainTasksFrom cnt [] = cnt"
| "drainTasksFrom cnt (t # taskCh) = drainTasksFrom (cnt + 1) taskCh"

definition drainTasks :: "reorgBackfillTask list \<Rightarrow> int" where
  "drainTasks taskCh = drainTasksFrom 0 taskCh"

text \<open>
  The local variables of \<^verbatim>\<open>waitTaskResults\<close>, the scheduler's state, the counter
  behind \<^verbatim>\<open>totalAddedCount\<close>, and a ghost field: the loop indices \<open>i\<close> at which
  \<^verbatim>\<open>adjustWorkerSize\<close> was called, in order.
\<close>

record 's waitState =
  ws_scheduler :: 's
  ws_firstErr :: "error option"
  ws_addedCount :: int
  ws_totalAddedCount :: int
  ws_keeper :: doneTaskKeeper
  ws_adjustedAt :: "int list"

text \<open>
  The loop \<^verbatim>\<open>for i := 0; i < taskSize; i++\<close>. In Go \<^verbatim>\<open>%\<close> and \<^verbatim>\<open>*\<close> have the
  same precedence and associate to the left, so \<^verbatim>\<open>i%scheduler.workerSize()*4\<close> is
  \<^verbatim>\<open>(i % workerSize()) * 4\<close>; \<^verbatim>\<open>%\<close> truncates towards zero (\<open>smod\<close>) and panics on
  a zero divisor. The error \<^verbatim>\<open>adjustWorkerSize\<close> returns is only logged.
\<close>

fun waitTaskResultsLoop ::
  "'s backfillScheduler \<Rightarrow> int \<Rightarrow> int \<Rightarrow> 's waitState \<Rightarrow> resultEvent list
     \<Rightarrow> abort + 's waitState" where
  "waitTaskResultsLoop scheduler i taskSize st [] =
     (if i < taskSize then Inl BlockedOnReceive else Inr st)"
| "waitTaskResultsLoop scheduler i taskSize st (ev # resultCh) =
     (if \<not> i < taskSize then Inr st
      else
        let result = ev_result ev in
        if res_err result \<noteq> None then
          let st1 = (if ws_firstErr st = None then st\<lparr>ws_firstErr := res_err result\<rparr> else st);
              cnt = drainTasks (ev_taskCh ev)
          in waitTaskResultsLoop scheduler (i + 1) (taskSize - cnt) st1 resultCh
        else
          let st1 = st\<lparr>ws_totalAddedCount := ws_totalAddedCount st + addedCount result,
                      ws_addedCount := ws_addedCount st + addedCount result,
                      ws_keeper := updateNextKey (ws_keeper st) (taskID result) (res_nextKey result)\<rparr>
          in
          if workerSize scheduler (ws_scheduler st1) = 0 then Inl PanicDivideByZero
          else if (i smod workerSize scheduler (ws_scheduler st1)) * 4 = 0 then
            let (adjustErr, s') = adjustWorkerSize scheduler (ws_scheduler st1)
            in waitTaskResultsLoop scheduler (i + 1) taskSize
                 (st1\<lparr>ws_scheduler := s', ws_adjustedAt := ws_adjustedAt st1 @ [i]\<rparr>) resultCh
          else waitTaskResultsLoop scheduler (i + 1) taskSize st1 resultCh)"

text \<open>
  \<^verbatim>\<open>waitTaskResults\<close> returns \<^verbatim>\<open>(keeper.nextKey, addedCount, firstErr)\<close>; the model
  returns the final state with them. \<^verbatim>\<open>batchTasks[0]\<close> panics on an empty batch.
\<close>

definition waitTaskResults ::
  "'s backfillScheduler \<Rightarrow> 's \<Rightarrow> reorgBackfillTask list \<Rightarrow> int \<Rightarrow> resultEvent list
     \<Rightarrow> abort + (key \<times> int \<times> error option) \<times> 's waitState" where
  "waitTaskResults scheduler s batchTasks totalAddedCount resultCh =
     (case batchTasks of
        [] \<Rightarrow> Inl PanicIndexOutOfRange
      | task0 # _ \<Rightarrow>
          (case waitTaskResultsLoop scheduler 0 (int (length batchTasks))
                  \<lparr>ws_scheduler = s, ws_firstErr = None, ws_addedCount = 0,
                   ws_totalAddedCount = totalAddedCount,
                   ws_keeper = newDoneTaskKeeper (task_startKey task0),
                   ws_adjustedAt = []\<rparr> resultCh of
             Inl a \<Rightarrow> Inl a
           | Inr st \<Rightarrow>
               Inr ((nextKey (ws_keeper st), ws_addedCount st, ws_firstErr st), st)))"

section \<open>Sending a batch and persisting the progress\<close>

text \<open>
  The state \<^verbatim>\<open>sendTasksAndWait\<close> works on: the scheduler, the counter behind
  \<^verbatim>\<open>totalAddedCount\<close>, the tasks sent on \<^verbatim>\<open>taskCh\<close> and to the
  \<^verbatim>\<open>copReqSenderPool\<close>, and the keys \<^verbatim>\<open>reorgInfo.UpdateReorgMeta\<close> was called with, in
  order. \<^verbatim>\<open>isReorgRunnable\<close> and \<^verbatim>\<open>UpdateReorgMeta\<close> are methods declared in other
  files; the first is a parameter (job id and distributed flag to error), of the second
  only the calls are recorded, since its error \<^verbatim>\<open>err1\<close> is only logged.
\<close>

record 's driverState =
  ds_scheduler :: 's
  ds_totalAddedCount :: int
  ds_taskCh :: "reorgBackfillTask list"
  ds_copSent :: "reorgBackfillTask list"
  ds_reorgMeta :: "key list"

fun sendTasks ::
  "'s backfillScheduler \<Rightarrow> reorgBackfillTask list \<Rightarrow> 's driverState \<Rightarrow> 's driverState" where
  "sendTasks scheduler [] ds = ds"
| "sendTasks scheduler (task # batchTasks) ds =
     (let ds1 = (if copReqSenderPool_set scheduler (ds_scheduler ds)
                 then ds\<lparr>ds_copSent := ds_copSent ds @ [task]\<rparr> else ds)
      in sendTasks scheduler batchTasks (ds1\<lparr>ds_taskCh := ds_taskCh ds1 @ [task]\<rparr>))"

definition sendTasksAndWait ::
  "'s backfillScheduler \<Rightarrow> (int \<Rightarrow> bool \<Rightarrow> error option) \<Rightarrow> int
     \<Rightarrow> reorgBackfillTask list \<Rightarrow> resultEvent list \<Rightarrow> 's driverState
     \<Rightarrow> abort + error option \<times> 's driverState" where
  "sendTasksAndWait scheduler isReorgRunnable reorgJobID batchTasks resultCh ds =
     (let ds1 = sendTasks scheduler batchTasks ds in
      case waitTaskResults scheduler (ds_scheduler ds1) batchTasks
             (ds_totalAddedCount ds1) resultCh of
        Inl a \<Rightarrow> Inl a
      | Inr ((nextK, taskAddedCount, waitErr), st) \<Rightarrow>
          let e = (if waitErr = None then isReorgRunnable reorgJobID False else waitErr);
              ds2 = ds1\<lparr>ds_scheduler := ws_scheduler st,
                        ds_totalAddedCount := ws_totalAddedCount st,
                        ds_reorgMeta := ds_reorgMeta ds1 @ [nextK]\<rparr>
          in if e \<noteq> None then Inr (e, ds2) else Inr (None, ds2))"

section \<open>The store\<close>

text \<open>
  Modelled from the spec: the key-value store, its snapshots and their iterators are
  interfaces of package \<^verbatim>\<open>kv\<close>, implemented outside the source files; the spec treats
  them as opaque (section 1) and fixes what the file relies on: a forward iterator from
  \<open>k\<close> with upper bound \<open>u\<close> yields the existing keys \<open>k \<le> key < u\<close> in ascending order
  (section 4.2), a reverse iterator from \<open>k\<close> yields the existing keys below \<open>k\<close> in descending
  order (section 4.1); an empty bound is no bound. A snapshot is its finite list of entries,
  the error (if any) that opening an iterator returns, and the error (if any) that
  \<^verbatim>\<open>Next()\<close> returns when the iterator stands on a given key. An iterator is the list of
  entries from its position on: it is valid while the list is not empty, and its key and
  value are those of the first entry.
\<close>

type_synonym bytes = "byte list"

record snapshot =
  snap_data :: "(key \<times> bytes) list"
  snap_iterErr :: "error option"
  snap_nextErr :: "key \<Rightarrow> error option"

record iterator =
  it_entries :: "(key \<times> bytes) list"
  it_nextErr :: "key \<Rightarrow> error option"

definition Valid :: "iterator \<Rightarrow> bool" where
  "Valid it \<longleftrightarrow> it_entries it \<noteq> []"

definition Key :: "iterator \<Rightarrow> key" where
  "Key it = fst (hd (it_entries it))"



definition IterReverse :: "snapshot \<Rightarrow> key \<Rightarrow> error + iterator" where
  "IterReverse snap k =
     (case snap_iterErr snap of
        Some e \<Rightarrow> Inl e
      | None \<Rightarrow>
          Inr \<lparr>it_entries =
                 rev (sort_key fst (filter (\<lambda>(k', v). k = [] \<or> k' < k) (snap_data snap))),
               it_nextErr = snap_nextErr snap\<rparr>)"


record KeyRange =
  StartKey :: key
  EndKey :: key

text \<open>
  A \<^verbatim>\<open>kv.Storage\<close> gives a snapshot for a version. A \<^verbatim>\<open>tikv.Storage\<close> has a region
  cache as well; of that only \<^verbatim>\<open>SplitRegionRanges\<close> (package \<^verbatim>\<open>copr\<close>) is used, which
  is a parameter here: from the ranges and the limit to an error or the split ranges.
\<close>

type_synonym version = "64 word"

type_synonym regionCache = "KeyRange list \<Rightarrow> int \<Rightarrow> error + KeyRange list"

datatype storage =
    OtherStorage "version \<Rightarrow> snapshot"
  | TikvStorage "version \<Rightarrow> snapshot" regionCache

fun GetSnapshot :: "storage \<Rightarrow> version \<Rightarrow> snapshot" where
  "GetSnapshot (OtherStorage snaps) ver = snaps ver"
| "GetSnapshot (TikvStorage snaps rc) ver = snaps ver"

definition MaxVersion :: version where
  "MaxVersion = - 1"

section \<open>Splitting the key range of a table\<close>

text \<open>
  \<^verbatim>\<open>splitTableRanges\<close> returns \<^verbatim>\<open>([]kv.KeyRange, error)\<close>; a nil slice is \<open>[]\<close>.
\<close>

definition splitTableRanges ::
  "PhysicalTable \<Rightarrow> storage \<Rightarrow> key \<Rightarrow> key \<Rightarrow> int \<Rightarrow> KeyRange list \<times> error option" where
  "splitTableRanges t store startKey endKey limit =
     (let kvRange = \<lparr>StartKey = startKey, EndKey = endKey\<rparr> in
      case store of
        OtherStorage snaps \<Rightarrow> ([kvRange], None)
      | TikvStorage snaps rc \<Rightarrow>
          (case rc [kvRange] limit of
             Inl e \<Rightarrow> ([], Some e)
           | Inr ranges \<Rightarrow>
               if length ranges = 0
               then ([], Some (ErrInvalidSplitRegionRanges startKey endKey))
               else (ranges, None)))"

section \<open>The last existing key of a range\<close>

text \<open>
  \<^verbatim>\<open>getRangeEndKey\<close> returns \<^verbatim>\<open>(kv.Key, error)\<close>. The snapshot options (priority,
  tagger, request source) do not change what the iterator yields.
\<close>

definition getRangeEndKey ::
  "storage \<Rightarrow> int \<Rightarrow> key \<Rightarrow> key \<Rightarrow> key \<Rightarrow> key \<times> error option" where
  "getRangeEndKey store priority keyPrefix startKey endKey =
     (let snap = GetSnapshot store MaxVersion in
      case IterReverse snap (Next endKey) of
        Inl e \<Rightarrow> ([], Some e)
      | Inr it \<Rightarrow>
          if \<not> Valid it \<or> \<not> HasPrefix (Key it) keyPrefix then (startKey, None)
          else if Cmp (Key it) startKey < 0 then (startKey, None)
          else (Key it, None))"

section \<open>Building the tasks of a batch\<close>

text \<open>Of \<^verbatim>\<open>reorgInfo\<close> (declared in another file) the fields \<^verbatim>\<open>getBatchTasks\<close> reads.\<close>

record reorgInfo =
  ri_JobID :: int
  ri_JobPriority :: int
  ri_Priority :: int
  mergingTmpIdx :: bool
  ri_store :: storage

text \<open>
  The body of the loop over \<^verbatim>\<open>kvRanges\<close>: the task for the range at index \<open>i\<close> of
  \<open>n = len(kvRanges)\<close>. When \<^verbatim>\<open>getRangeEndKey\<close> fails, \<^verbatim>\<open>endK\<close> is nil and the
  declared end is kept.
\<close>

definition rangeTask ::
  "PhysicalTable \<Rightarrow> reorgInfo \<Rightarrow> key \<Rightarrow> int \<Rightarrow> int \<Rightarrow> KeyRange \<Rightarrow> reorgBackfillTask" where
  "rangeTask phyTbl reorgInfo prefix n i keyRange =
     (let (endK, e) = getRangeEndKey (ri_store reorgInfo) (ri_JobPriority reorgInfo) prefix
                        (StartKey keyRange) (EndKey keyRange);
          endKey1 = (if e \<noteq> None then EndKey keyRange else endK);
          startKey2 = (if length (StartKey keyRange) = 0 then prefix else StartKey keyRange);
          endKey2 = (if length endKey1 = 0 then PrefixNext prefix else endKey1)
      in \<lparr>bfJob = None, physicalTable = phyTbl, task_id = i,
          task_startKey = startKey2, task_endKey = endKey2,
          endInclude = (Cmp endK (EndKey keyRange) \<noteq> 0 \<or> i = n - 1),
          task_jobID = ri_JobID reorgInfo, sqlQuery = [], task_priority = ri_Priority reorgInfo\<rparr>)"

fun getBatchTasksLoop ::
  "PhysicalTable \<Rightarrow> reorgInfo \<Rightarrow> key \<Rightarrow> int \<Rightarrow> int \<Rightarrow> int \<Rightarrow> KeyRange list
     \<Rightarrow> reorgBackfillTask list \<Rightarrow> reorgBackfillTask list" where
  "getBatchTasksLoop phyTbl reorgInfo prefix n batch i [] batchTasks = batchTasks"
| "getBatchTasksLoop phyTbl reorgInfo prefix n batch i (keyRange # kvRanges) batchTasks =
     (let batchTasks1 = batchTasks @ [rangeTask phyTbl reorgInfo prefix n i keyRange] in
      if int (length batchTasks1) \<ge> batch then batchTasks1
      else getBatchTasksLoop phyTbl reorgInfo prefix n batch (i + 1) kvRanges batchTasks1)"

text \<open>
  \<^verbatim>\<open>make([]*reorgBackfillTask, 0, batch)\<close> panics when \<^verbatim>\<open>batch\<close> is negative. The table
  \<open>t\<close> is taken as a physical table (the source asserts it).
\<close>

definition getBatchTasks ::
  "PhysicalTable \<Rightarrow> reorgInfo \<Rightarrow> KeyRange list \<Rightarrow> int \<Rightarrow> abort + reorgBackfillTask list" where
  "getBatchTasks t reorgInfo kvRanges batch =
     (if batch < 0 then Inl PanicMakeSliceCap
      else
        let prefix = (if mergingTmpIdx reorgInfo then IndexPrefix t else RecordPrefix t)
        in Inr (getBatchTasksLoop t reorgInfo prefix (int (length kvRanges)) batch 0 kvRanges []))"

section \<open>Iterating over the keys of a snapshot\<close>









section \<open>Handling one task in a worker\<close>

text \<open>
  \<^verbatim>\<open>backfillTaskContext\<close>, with the prefix \<open>tc_\<close> on every field. An
  \<^verbatim>\<open>errors.ErrorID\<close> is a string.
\<close>

record backfillTaskContext =
  tc_nextKey :: key
  tc_done :: bool
  tc_addedCount :: int
  tc_scanCount :: int
  tc_warnings :: "(string, error) fmap"
  tc_warningsCount :: "(string, int) fmap"
  tc_finishTS :: "64 word"

definition mergeBackfillCtxToResult :: "backfillTaskContext \<Rightarrow> backfillResult \<Rightarrow> backfillResult" where
  "mergeBackfillCtxToResult taskCtx result =
     result\<lparr>res_nextKey := tc_nextKey taskCtx,
            addedCount := addedCount result + tc_addedCount taskCtx,
            scanCount := scanCount result + tc_scanCount taskCtx\<rparr>"

text \<open>
  What \<^verbatim>\<open>handleBackfillTask\<close> calls outside this file, over a state \<open>'w\<close> of everything
  those calls read and change (the job's state, the store, the row processor, the
  clock): \<^verbatim>\<open>d.isReorgRunnable\<close>; the methods \<^verbatim>\<open>BackfillData\<close>, \<^verbatim>\<open>AddMetricInfo\<close> and
  \<^verbatim>\<open>UpdateTask\<close> of the \<^verbatim>\<open>backfiller\<close> interface; \<^verbatim>\<open>increaseRowCount\<close> and
  \<^verbatim>\<open>mergeWarnings\<close> of the reorg context; \<^verbatim>\<open>initPartitionIndexInfo\<close>;
  \<^verbatim>\<open>genBackfillJobReorgCtxID\<close>; \<^verbatim>\<open>time.Now\<close> in nanoseconds and the constant
  \<^verbatim>\<open>updateInstanceLease\<close>; \<^verbatim>\<open>GetOracleTime\<close>, and \<^verbatim>\<open>GetLeaseGoTime\<close> applied to
  \<^verbatim>\<open>InstanceLease\<close>; the worker's \<^verbatim>\<open>uuid\<close>. Logging is left out.
\<close>

record 'w backfillEnv =
  env_isReorgRunnable :: "int \<Rightarrow> bool \<Rightarrow> 'w \<Rightarrow> error option"
  env_BackfillData :: "reorgBackfillTask \<Rightarrow> 'w \<Rightarrow> (error + backfillTaskContext) \<times> 'w"
  env_AddMetricInfo :: "int \<Rightarrow> 'w \<Rightarrow> 'w"
  env_increaseRowCount :: "int \<Rightarrow> 'w \<Rightarrow> 'w"
  env_mergeWarnings :: "(string, error) fmap \<Rightarrow> (string, int) fmap \<Rightarrow> 'w \<Rightarrow> 'w"
  env_initPartitionIndexInfo :: "reorgBackfillTask \<Rightarrow> 'w \<Rightarrow> 'w"
  env_genBackfillJobReorgCtxID :: "int \<Rightarrow> int"
  env_timeNow :: "'w \<Rightarrow> int"
  env_updateInstanceLease :: int
  env_GetOracleTime :: "'w \<Rightarrow> error + int"
  env_GetLeaseGoTime :: "int \<Rightarrow> int"
  env_UpdateTask :: "BackfillJob \<Rightarrow> 'w \<Rightarrow> error option \<times> 'w"
  env_uuid :: string

text \<open>
  \<^verbatim>\<open>updateLease\<close> writes through the pointer \<^verbatim>\<open>bfJob\<close>; the model returns the job.
\<close>

definition updateLease ::
  "'w backfillEnv \<Rightarrow> string \<Rightarrow> BackfillJob \<Rightarrow> key \<Rightarrow> 'w \<Rightarrow> error option \<times> BackfillJob \<times> 'w" where
  "updateLease env execID job nextK w =
     (case env_GetOracleTime env w of
        Inl e \<Rightarrow> (Some e, job, w)
      | Inr leaseTime \<Rightarrow>
          let job1 = job\<lparr>CurrKey := nextK, InstanceID := execID,
                         InstanceLease := env_GetLeaseGoTime env leaseTime\<rparr>;
              (e, w1) = env_UpdateTask env job1 w
          in (e, job1, w1))"

text \<open>
  The loop \<^verbatim>\<open>for { ... }\<close> of \<^verbatim>\<open>handleBackfillTask\<close>. It has no bound of its own: it
  runs until the row processor reports \<^verbatim>\<open>done\<close> or something fails. \<open>fuel\<close> bounds the
  number of rounds, and \<open>None\<close> says the loop has not returned within them.
  \<^verbatim>\<open>handleRange\<close> is a copy of the task that shares its \<^verbatim>\<open>bfJob\<close> pointer, so the job
  that \<^verbatim>\<open>updateLease\<close> writes to is kept in \<open>bfJob handleRange\<close>, and \<^verbatim>\<open>isDistReorg\<close>
  (\<^verbatim>\<open>task.bfJob != nil\<close>) is read from it.
\<close>

fun handleBackfillTaskLoop ::
  "'w backfillEnv \<Rightarrow> nat \<Rightarrow> int \<Rightarrow> reorgBackfillTask \<Rightarrow> int \<Rightarrow> backfillResult \<Rightarrow> 'w
     \<Rightarrow> (backfillResult \<times> reorgBackfillTask \<times> 'w) option" where
  "handleBackfillTaskLoop env 0 jobID1 handleRange batchStartTime result w = None"
| "handleBackfillTaskLoop env (Suc fuel) jobID1 handleRange batchStartTime result w =
     (let isDistReorg = (bfJob handleRange \<noteq> None) in
      case env_isReorgRunnable env jobID1 isDistReorg w of
        Some e \<Rightarrow> Some (result\<lparr>res_err := Some e\<rparr>, handleRange, w)
      | None \<Rightarrow>
          (case env_BackfillData env handleRange w of
             (Inl e, w1) \<Rightarrow> Some (result\<lparr>res_err := Some e\<rparr>, handleRange, w1)
           | (Inr taskCtx, w1) \<Rightarrow>
               let w2 = env_AddMetricInfo env (tc_addedCount taskCtx) w1;
                   result1 = mergeBackfillCtxToResult taskCtx result;
                   w3 = env_increaseRowCount env (tc_addedCount taskCtx) w2;
                   w4 = env_mergeWarnings env (tc_warnings taskCtx) (tc_warningsCount taskCtx) w3;
                   handleRange1 = handleRange\<lparr>task_startKey := tc_nextKey taskCtx\<rparr>
               in
               if tc_done taskCtx then Some (result1, handleRange1, w4)
               else
                 (case bfJob handleRange1 of
                    None \<Rightarrow>
                      handleBackfillTaskLoop env fuel jobID1 handleRange1 batchStartTime result1 w4
                  | Some job \<Rightarrow>
                      if env_timeNow env w4 - batchStartTime < env_updateInstanceLease env
                      then handleBackfillTaskLoop env fuel jobID1 handleRange1
                             batchStartTime result1 w4
                      else
                        (case updateLease env (env_uuid env) job (res_nextKey result1) w4 of
                           (Some e, job1, w5) \<Rightarrow>
                             Some (result1\<lparr>res_err := Some e\<rparr>,
                                   handleRange1\<lparr>bfJob := Some job1\<rparr>, w5)
                         | (None, job1, w5) \<Rightarrow>
                             handleBackfillTaskLoop env fuel jobID1
                               (handleRange1\<lparr>bfJob := Some job1\<rparr>)
                               (env_timeNow env w4) result1 w5))))"

text \<open>
  \<^verbatim>\<open>handleBackfillTask\<close> returns the result; the model returns with it the final
  \<^verbatim>\<open>handleRange\<close> (for the job written through \<^verbatim>\<open>task.bfJob\<close>) and the final state.
\<close>

definition handleBackfillTask ::
  "'w backfillEnv \<Rightarrow> nat \<Rightarrow> reorgBackfillTask \<Rightarrow> 'w
     \<Rightarrow> (backfillResult \<times> reorgBackfillTask \<times> 'w) option" where
  "handleBackfillTask env fuel task w =
     (let handleRange = task;
          result = \<lparr>taskID = task_id task, addedCount = 0, scanCount = 0,
                    res_nextKey = task_startKey handleRange, res_err = None\<rparr>;
          batchStartTime = env_timeNow env w;
          jobID0 = getJobID task;
          isDistReorg = (bfJob task \<noteq> None);
          w1 = (if isDistReorg then env_initPartitionIndexInfo env task w else w);
          jobID1 = (if isDistReorg then env_genBackfillJobReorgCtxID env jobID0 else jobID0)
      in handleBackfillTaskLoop env fuel jobID1 handleRange batchStartTime result w1)"

section \<open>Notions used in the proofs\<close>

subsection \<open>The keeper's invariant\<close>

text \<open>
  Let \<open>A\<close> be the set of task ids fed to the keeper so far and \<open>\<kappa> i\<close> the key that id
  \<open>i\<close> carries. Between calls, \<open>current\<close> is the least id not in \<open>A\<close>, the map holds
  exactly the ids of \<open>A\<close> above \<open>current\<close>, and \<open>nextKey\<close> is the key of id
  \<open>current - 1\<close> (the start key while \<open>current = 0\<close>). Inside the drain loop the entry
  for \<open>current\<close> itself may still be in the map (\<open>keeper_pre\<close>).
\<close>

definition keeper_pre :: "key \<Rightarrow> (int \<Rightarrow> key) \<Rightarrow> int set \<Rightarrow> doneTaskKeeper \<Rightarrow> bool" where
  "keeper_pre S \<kappa> A n \<longleftrightarrow>
     0 \<le> current n \<and>
     (\<forall>i. 0 \<le> i \<and> i < current n \<longrightarrow> i \<in> A) \<and>
     (\<forall>i. fmlookup (doneTaskNextKey n) i =
            (if i \<in> A \<and> current n \<le> i then Some (\<kappa> i) else None)) \<and>
     nextKey n = (if current n = 0 then S else \<kappa> (current n - 1))"

definition keeper_inv :: "key \<Rightarrow> (int \<Rightarrow> key) \<Rightarrow> int set \<Rightarrow> doneTaskKeeper \<Rightarrow> bool" where
  "keeper_inv S \<kappa> A n \<longleftrightarrow> keeper_pre S \<kappa> A n \<and> current n \<notin> A"

subsection \<open>The successful results of a batch\<close>

text \<open>The calls \<^verbatim>\<open>updateNextKey(taskID, nextKey)\<close> that a list of arrivals leads to.\<close>

definition successCalls :: "resultEvent list \<Rightarrow> (int \<times> key) list" where
  "successCalls resultCh =
     map (\<lambda>ev. (taskID (ev_result ev), res_nextKey (ev_result ev)))
       (filter (\<lambda>ev. res_err (ev_result ev) = None) resultCh)"

subsection \<open>The largest existing key up to a bound\<close>

text \<open>\<open>m\<close> is a key of the snapshot, at most \<open>endKey\<close>, and no key of the snapshot up to
  \<open>endKey\<close> is larger.\<close>

definition largestKeyUpTo :: "snapshot \<Rightarrow> key \<Rightarrow> key \<Rightarrow> bool" where
  "largestKeyUpTo snap endKey m \<longleftrightarrow>
     m \<in> fst ` set (snap_data snap) \<and> m \<le> endKey \<and>
     (\<forall>k \<in> fst ` set (snap_data snap). k \<le> endKey \<longrightarrow> k \<le> m)"

subsection \<open>The keys a callback is called with\<close>


subsection \<open>The batches a worker commits\<close>

text \<open>
  \<open>tracedEnv env\<close> is the environment \<open>env\<close> that also keeps, beside the state, the list
  of the batch contexts that \<^verbatim>\<open>BackfillData\<close> has returned without error, in order: the
  committed batches. \<open>batchesMerged start committed result\<close> says that \<open>result\<close> holds the
  next key of the last of them (\<open>start\<close> when there is none) and the sums of their counts.
\<close>

definition tracedEnv :: "'w backfillEnv \<Rightarrow> ('w \<times> backfillTaskContext list) backfillEnv" where
  "tracedEnv env =
     \<lparr>env_isReorgRunnable = (\<lambda>j d (w, cs). env_isReorgRunnable env j d w),
      env_BackfillData =
        (\<lambda>r (w, cs).
           case env_BackfillData env r w of
             (Inl e, w1) \<Rightarrow> (Inl e, (w1, cs))
           | (Inr taskCtx, w1) \<Rightarrow> (Inr taskCtx, (w1, cs @ [taskCtx]))),
      env_AddMetricInfo = (\<lambda>n (w, cs). (env_AddMetricInfo env n w, cs)),
      env_increaseRowCount = (\<lambda>n (w, cs). (env_increaseRowCount env n w, cs)),
      env_mergeWarnings = (\<lambda>ws wc (w, cs). (env_mergeWarnings env ws wc w, cs)),
      env_initPartitionIndexInfo = (\<lambda>t (w, cs). (env_initPartitionIndexInfo env t w, cs)),
      env_genBackfillJobReorgCtxID = env_genBackfillJobReorgCtxID env,
      env_timeNow = (\<lambda>(w, cs). env_timeNow env w),
      env_updateInstanceLease = env_updateInstanceLease env,
      env_GetOracleTime = (\<lambda>(w, cs). env_GetOracleTime env w),
      env_GetLeaseGoTime = env_GetLeaseGoTime env,
      env_UpdateTask = (\<lambda>job (w, cs). case env_UpdateTask env job w of (e, w1) \<Rightarrow> (e, (w1, cs))),
      env_uuid = env_uuid env\<rparr>"

definition batchesMerged :: "key \<Rightarrow> backfillTaskContext list \<Rightarrow> backfillResult \<Rightarrow> bool" where
  "batchesMerged start committed result \<longleftrightarrow>
     res_nextKey result = (if committed = [] then start else tc_nextKey (last committed)) \<and>
     addedCount result = sum_list (map tc_addedCount committed) \<and>
     scanCount result = sum_list (map tc_scanCount committed)"

subsection \<open>The rows of a range\<close>


fun firstNextErr :: "(key \<Rightarrow> error option) \<Rightarrow> key list \<Rightarrow> error option" where
  "firstNextErr nextErr [] = None"
| "firstNextErr nextErr (k # ks) =
     (case nextErr k of Some e \<Rightarrow> Some e | None \<Rightarrow> firstNextErr nextErr ks)"

function rowsVisited :: "(key \<Rightarrow> error option) \<Rightarrow> key \<Rightarrow> key list \<Rightarrow> key list \<times> error option" where
  "rowsVisited nextErr keyPrefix [] = ([], None)"
| "rowsVisited nextErr keyPrefix (k # ks) =
     (if \<not> HasPrefix k keyPrefix then ([], None)
      else
        case firstNextErr nextErr (k # takeWhile (\<lambda>k'. HasPrefix k' k) ks) of
          Some e \<Rightarrow> ([k], if e = ErrNotExist then None else Some e)
        | None \<Rightarrow>
            (case rowsVisited nextErr keyPrefix (dropWhile (\<lambda>k'. HasPrefix k' k) ks) of
               (visited, e) \<Rightarrow> (k # visited, e)))"
  by pat_completeness auto
termination
proof (relation "measure (\<lambda>(nextErr, keyPrefix, ks). length ks)")
  show "wf (measure (\<lambda>(nextErr :: key \<Rightarrow> error option, keyPrefix :: key, ks :: key list). length ks))"
    by simp
next
  fix nextErr :: "key \<Rightarrow> error option" and keyPrefix k :: key and ks :: "key list"
  have "length (dropWhile (\<lambda>k'. HasPrefix k' k) ks) \<le> length ks"
    by (rule length_dropWhile_le)
  then show "((nextErr, keyPrefix, dropWhile (\<lambda>k'. HasPrefix k' k) ks), (nextErr, keyPrefix, k # ks))
      \<in> measure (\<lambda>(nextErr, keyPrefix, ks). length ks)"
    by simp
qed

definition rowKeys :: "key \<Rightarrow> key list \<Rightarrow> key list" where
  "rowKeys keyPrefix ks = fst (rowsVisited (\<lambda>k. None) keyPrefix ks)"

section \<open>Example inputs\<close>

text \<open>
  A table, a batch of three tasks, a scheduler with a constant number of workers whose
  \<^verbatim>\<open>adjustWorkerSize\<close> changes nothing, and results arriving while \<^verbatim>\<open>taskCh\<close> is
  empty.
\<close>

definition demoTable :: PhysicalTable where
  "demoTable = \<lparr>GetPhysicalID = 1, RecordPrefix = [116, 1, 95, 114], IndexPrefix = [116, 1, 95, 105]\<rparr>"

definition demoTask :: "int \<Rightarrow> key \<Rightarrow> key \<Rightarrow> bool \<Rightarrow> reorgBackfillTask" where
  "demoTask i start endK incl =
     \<lparr>bfJob = None, physicalTable = demoTable, task_id = i, task_startKey = start, task_endKey = endK,
      endInclude = incl, task_jobID = 7, sqlQuery = [], task_priority = 0\<rparr>"

definition demoScheduler :: "int \<Rightarrow> unit backfillScheduler" where
  "demoScheduler w =
     \<lparr>workerSize = (\<lambda>_. w), adjustWorkerSize = (\<lambda>s. (None, s)),
      copReqSenderPool_set = (\<lambda>_. False)\<rparr>"

definition arrives :: "int \<Rightarrow> key \<Rightarrow> error option \<Rightarrow> resultEvent" where
  "arrives i k e =
     \<lparr>ev_result = \<lparr>taskID = i, addedCount = 10, scanCount = 10, res_nextKey = k, res_err = e\<rparr>,
      ev_taskCh = []\<rparr>"

definition demoBatch :: "reorgBackfillTask list" where
  "demoBatch = [demoTask 0 [1] [2] False, demoTask 1 [2] [3] False, demoTask 2 [3] [4] True]"

definition demoDriver :: "unit driverState" where
  "demoDriver =
     \<lparr>ds_scheduler = (), ds_totalAddedCount = 0, ds_taskCh = [], ds_copSent = [],
      ds_reorgMeta = []\<rparr>"

text \<open>A store whose snapshots all hold the given entries and whose iterators never fail,
  and the \<^verbatim>\<open>reorgInfo\<close> of a job on it.\<close>

definition demoSnapshot :: "(key \<times> bytes) list \<Rightarrow> snapshot" where
  "demoSnapshot entries =
     \<lparr>snap_data = entries, snap_iterErr = None, snap_nextErr = (\<lambda>_. None)\<rparr>"

definition demoStore :: "(key \<times> bytes) list \<Rightarrow> storage" where
  "demoStore entries = OtherStorage (\<lambda>_. demoSnapshot entries)"

definition demoReorgInfo :: "(key \<times> bytes) list \<Rightarrow> reorgInfo" where
  "demoReorgInfo entries =
     \<lparr>ri_JobID = 7, ri_JobPriority = 0, ri_Priority = 0, mergingTmpIdx = False,
      ri_store = demoStore entries\<rparr>"



text \<open>
  A row processor that commits two batches of three added and four scanned rows and then
  fails, with a job that may be cancelled from the start and an oracle that may fail.
\<close>

definition demoBatchCtx :: "key \<Rightarrow> backfillTaskContext" where
  "demoBatchCtx k =
     \<lparr>tc_nextKey = k, tc_done = False, tc_addedCount = 3, tc_scanCount = 4,
      tc_warnings = fmempty, tc_warningsCount = fmempty, tc_finishTS = 0\<rparr>"

definition demoJob :: BackfillJob where
  "demoJob = \<lparr>JobID = 7, CurrKey = [], InstanceID = [], InstanceLease = 0\<rparr>"

definition demoEnv :: "error option \<Rightarrow> error option \<Rightarrow> nat backfillEnv" where
  "demoEnv cancelled oracleErr =
     \<lparr>env_isReorgRunnable = (\<lambda>j d w. cancelled),
      env_BackfillData =
        (\<lambda>r w. (if w < 2 then Inr (demoBatchCtx (task_startKey r @ [1]))
                 else Inl (ErrOther []), Suc w)),
      env_AddMetricInfo = (\<lambda>n w. w),
      env_increaseRowCount = (\<lambda>n w. w),
      env_mergeWarnings = (\<lambda>ws wc w. w),
      env_initPartitionIndexInfo = (\<lambda>t w. w),
      env_genBackfillJobReorgCtxID = (\<lambda>j. j),
      env_timeNow = (\<lambda>w. int w),
      env_updateInstanceLease = 1,
      env_GetOracleTime = (\<lambda>w. case oracleErr of Some e \<Rightarrow> Inl e | None \<Rightarrow> Inr 0),
      env_GetLeaseGoTime = (\<lambda>t. t),
      env_UpdateTask = (\<lambda>job w. (None, w)),
      env_uuid = []\<rparr>"

section \<open>Verification\<close>

subsection \<open>The done-task keeper\<close>

lemma drainDoneTasks_inv:
  "keeper_pre S \<kappa> A n \<Longrightarrow> keeper_inv S \<kappa> A (drainDoneTasks n)"
proof (induction n rule: drainDoneTasks.induct)
  case (1 n)
  show ?case
  proof (cases "fmlookup (doneTaskNextKey n) (current n)")
    case None
    with "1.prems" have "current n \<notin> A"
      by (auto simp: keeper_pre_def split: if_splits)
    with None "1.prems" show ?thesis
      by (simp add: drainDoneTasks.simps [of n] keeper_inv_def)
  next
    case (Some nKey)
    let ?n' = "n\<lparr>doneTaskNextKey := fmdrop (current n) (doneTaskNextKey n),
                  current := current n + 1, nextKey := nKey\<rparr>"
    from Some "1.prems" have in_A: "current n \<in> A" and nKey: "nKey = \<kappa> (current n)"
      by (auto simp: keeper_pre_def split: if_splits)
    from "1.prems" have c0: "0 \<le> current n"
      and below: "\<And>i. 0 \<le> i \<Longrightarrow> i < current n \<Longrightarrow> i \<in> A"
      and lk: "\<And>i. fmlookup (doneTaskNextKey n) i =
                 (if i \<in> A \<and> current n \<le> i then Some (\<kappa> i) else None)"
      by (auto simp: keeper_pre_def)
    have "keeper_pre S \<kappa> A ?n'"
      unfolding keeper_pre_def
    proof (intro conjI allI impI)
      show "0 \<le> current ?n'" using c0 by simp
    next
      fix i assume "0 \<le> i \<and> i < current ?n'"
      then have "0 \<le> i" and "i < current n \<or> i = current n" by auto
      then show "i \<in> A" using below in_A by blast
    next
      fix i
      show "fmlookup (doneTaskNextKey ?n') i =
              (if i \<in> A \<and> current ?n' \<le> i then Some (\<kappa> i) else None)"
        by (cases "i = current n") (auto simp: lk)
    next
      show "nextKey ?n' = (if current ?n' = 0 then S else \<kappa> (current ?n' - 1))"
        using c0 nKey by simp
    qed
    then have "keeper_inv S \<kappa> A (drainDoneTasks ?n')"
      using "1.IH" Some by simp
    then show ?thesis
      using Some by (simp add: drainDoneTasks.simps [of n])
  qed
qed

lemma updateNextKey_inv:
  assumes inv: "keeper_inv S \<kappa> A n"
    and new: "doneTaskID \<notin> A" and nonneg: "0 \<le> doneTaskID"
    and key: "\<kappa> doneTaskID = next"
  shows "keeper_inv S \<kappa> (insert doneTaskID A) (updateNextKey n doneTaskID next)"
proof (cases "doneTaskID = current n")
  case True
  let ?n' = "n\<lparr>current := current n + 1, nextKey := next\<rparr>"
  from inv have c0: "0 \<le> current n" and notin: "current n \<notin> A"
    and below: "\<And>i. 0 \<le> i \<Longrightarrow> i < current n \<Longrightarrow> i \<in> A"
    and lk: "\<And>i. fmlookup (doneTaskNextKey n) i =
               (if i \<in> A \<and> current n \<le> i then Some (\<kappa> i) else None)"
    by (auto simp: keeper_inv_def keeper_pre_def)
  have "keeper_pre S \<kappa> (insert doneTaskID A) ?n'"
    unfolding keeper_pre_def
  proof (intro conjI allI impI)
    show "0 \<le> current ?n'" using c0 by simp
  next
    fix i assume "0 \<le> i \<and> i < current ?n'"
    then have "0 \<le> i" and "i < current n \<or> i = current n" by auto
    then show "i \<in> insert doneTaskID A" using below True by blast
  next
    fix i
    show "fmlookup (doneTaskNextKey ?n') i =
            (if i \<in> insert doneTaskID A \<and> current ?n' \<le> i then Some (\<kappa> i) else None)"
      using notin True by (cases "i = current n") (auto simp: lk)
  next
    show "nextKey ?n' = (if current ?n' = 0 then S else \<kappa> (current ?n' - 1))"
      using c0 key True by simp
  qed
  then show ?thesis
    using True by (simp add: updateNextKey_def drainDoneTasks_inv)
next
  case False
  from inv new nonneg False have above: "current n < doneTaskID"
    unfolding keeper_inv_def keeper_pre_def
    by (metis linorder_neqE_linordered_idom)
  show ?thesis
    using inv False key above
    unfolding keeper_inv_def keeper_pre_def updateNextKey_def
    by auto
qed

lemma updateNextKeys_append:
  "updateNextKeys n (xs @ ys) = updateNextKeys (updateNextKeys n xs) ys"
  by (induction xs arbitrary: n) auto

lemma newDoneTaskKeeper_inv: "keeper_inv S \<kappa> {} (newDoneTaskKeeper S)"
  by (simp add: keeper_inv_def keeper_pre_def newDoneTaskKeeper_def)

lemma updateNextKeys_inv:
  assumes "distinct (map fst calls)"
    and "\<forall>(i, k) \<in> set calls. 0 \<le> i \<and> \<kappa> i = k"
  shows "keeper_inv S \<kappa> (fst ` set calls) (updateNextKeys (newDoneTaskKeeper S) calls)"
  using assms
proof (induction calls rule: rev_induct)
  case Nil
  show ?case by (simp add: newDoneTaskKeeper_inv)
next
  case (snoc c calls)
  obtain i k where c: "c = (i, k)" by (cases c)
  from snoc.prems c have "keeper_inv S \<kappa> (fst ` set calls) (updateNextKeys (newDoneTaskKeeper S) calls)"
    by (intro snoc.IH) auto
  moreover from snoc.prems c have "i \<notin> fst ` set calls" "0 \<le> i" "\<kappa> i = k"
    by auto
  ultimately have "keeper_inv S \<kappa> (insert i (fst ` set calls))
      (updateNextKey (updateNextKeys (newDoneTaskKeeper S) calls) i k)"
    by (rule updateNextKey_inv)
  then show ?case
    by (simp add: c updateNextKeys_append)
qed

lemma keeper_inv_start:
  "keeper_inv S \<kappa> A n \<Longrightarrow> 0 \<notin> A \<Longrightarrow> nextKey n = S"
  unfolding keeper_inv_def keeper_pre_def
  by (metis order_le_less)

lemma keeper_inv_current:
  assumes "keeper_inv S \<kappa> A n" "0 \<le> j" "{0..j} \<subseteq> A" "j + 1 \<notin> A"
  shows "current n = j + 1"
proof -
  from assms(1) have c: "0 \<le> current n" "current n \<notin> A"
    and below: "\<And>i. 0 \<le> i \<Longrightarrow> i < current n \<Longrightarrow> i \<in> A"
    unfolding keeper_inv_def keeper_pre_def by auto
  have "\<not> current n \<le> j"
    using c assms(3) by auto
  moreover have "\<not> j + 1 < current n"
    using below [of "j + 1"] assms(2,4) by auto
  ultimately show ?thesis by simp
qed

lemma keeper_inv_key:
  assumes "keeper_inv S \<kappa> A n" "0 \<le> j" "{0..j} \<subseteq> A" "j + 1 \<notin> A"
  shows "nextKey n = \<kappa> j"
  using keeper_inv_current [OF assms] assms(1,2)
  unfolding keeper_inv_def keeper_pre_def by auto


text \<open>
  Claim C1. Feed a fresh keeper with start key \<open>S\<close> the calls
  \<open>updateNextKey(id, k)\<close> of the list \<open>calls\<close>, whose ids are a permutation of
  \<open>0..n-1\<close>; \<open>map_of calls i\<close> is the key id \<open>i\<close> carries. After all calls
  \<open>nextKey\<close> is the key of id \<open>n-1\<close>. After any prefix (the first \<open>m\<close> calls),
  \<open>nextKey\<close> is \<open>S\<close> if id 0 has not been seen, and the key of id \<open>j\<close> when
  \<open>j\<close> is the largest integer with all of \<open>0..j\<close> seen.
\<close>

theorem doneTaskKeeper_in_order:
  assumes dist: "distinct (map fst calls)"
    and ids: "fst ` set calls = {0..<n}"
  shows "(0 < n \<longrightarrow>
            map_of calls (n - 1) = Some (nextKey (updateNextKeys (newDoneTaskKeeper S) calls))) \<and>
         (\<forall>m. let seen = fst ` set (take m calls);
                  K = nextKey (updateNextKeys (newDoneTaskKeeper S) (take m calls))
              in (0 \<notin> seen \<longrightarrow> K = S) \<and>
                 (\<forall>j. 0 \<le> j \<and> {0..j} \<subseteq> seen \<and> j + 1 \<notin> seen \<longrightarrow>
                      map_of calls j = Some K))"
proof -
  define \<kappa> where "\<kappa> i = the (map_of calls i)" for i
  have key: "\<kappa> i = k" if "(i, k) \<in> set calls" for i k
    using that dist by (simp add: \<kappa>_def)
  have nonneg: "0 \<le> i" if "(i, k) \<in> set calls" for i k
  proof -
    from that have "i \<in> fst ` set calls" by force
    with ids show ?thesis by simp
  qed
  have inv: "keeper_inv S \<kappa> (fst ` set (take m calls))
               (updateNextKeys (newDoneTaskKeeper S) (take m calls))" for m
  proof (rule updateNextKeys_inv)
    show "distinct (map fst (take m calls))"
      using dist by (simp add: take_map [symmetric] distinct_take)
    show "\<forall>(i, k) \<in> set (take m calls). 0 \<le> i \<and> \<kappa> i = k"
      using key nonneg by (auto dest: in_set_takeD)
  qed
  have carried: "map_of calls j = Some (\<kappa> j)" if "j \<in> fst ` set calls" for j
  proof -
    from that obtain k where "(j, k) \<in> set calls" by auto
    then show ?thesis using dist key by simp
  qed
  have part: "map_of calls j = Some (nextKey (updateNextKeys (newDoneTaskKeeper S) (take m calls)))"
    if "0 \<le> j" "{0..j} \<subseteq> fst ` set (take m calls)" "j + 1 \<notin> fst ` set (take m calls)"
    for m j
  proof -
    have "nextKey (updateNextKeys (newDoneTaskKeeper S) (take m calls)) = \<kappa> j"
      using inv that by (rule keeper_inv_key)
    moreover have "j \<in> fst ` set calls"
    proof -
      from that(1,2) have "j \<in> fst ` set (take m calls)" by auto
      then show ?thesis by (auto dest: in_set_takeD)
    qed
    ultimately show ?thesis by (simp add: carried)
  qed
  have all: "map_of calls (n - 1) = Some (nextKey (updateNextKeys (newDoneTaskKeeper S) calls))"
    if "0 < n"
  proof -
    have "{0..n - 1} \<subseteq> fst ` set (take (length calls) calls)"
      using ids by auto
    moreover have "n - 1 + 1 \<notin> fst ` set (take (length calls) calls)"
      using ids by simp
    ultimately show ?thesis
      using part [of "n - 1" "length calls"] that by simp
  qed
  show ?thesis
    using all part inv keeper_inv_start
    by (simp add: Let_def) blast
qed

theorem doneTaskKeeper_in_order_witness:
  "nextKey (updateNextKeys (newDoneTaskKeeper [7]) [(2, [30]), (0, [10]), (1, [20])]) = [30] \<and>
   nextKey (updateNextKeys (newDoneTaskKeeper [7]) [(2, [30])]) = [7] \<and>
   nextKey (updateNextKeys (newDoneTaskKeeper [7]) [(2, [30]), (0, [10])]) = [10]"
proof -
  let ?calls = "[(2, [30]), (0, [10]), (1, [20])] :: (int \<times> key) list"
  have d: "distinct (map fst ?calls)" by simp
  have s: "fst ` set ?calls = {0..<3}" by auto
  note th = doneTaskKeeper_in_order [OF d s, of "[7]"]
  from th have "map_of ?calls (3 - 1) = Some (nextKey (updateNextKeys (newDoneTaskKeeper [7]) ?calls))"
    by simp
  moreover from th have
    "let seen = fst ` set (take 1 ?calls);
         K = nextKey (updateNextKeys (newDoneTaskKeeper [7]) (take 1 ?calls))
     in (0 \<notin> seen \<longrightarrow> K = [7]) \<and>
        (\<forall>j. 0 \<le> j \<and> {0..j} \<subseteq> seen \<and> j + 1 \<notin> seen \<longrightarrow> map_of ?calls j = Some K)"
    by blast
  moreover from th have
    "let seen = fst ` set (take 2 ?calls);
         K = nextKey (updateNextKeys (newDoneTaskKeeper [7]) (take 2 ?calls))
     in (0 \<notin> seen \<longrightarrow> K = [7]) \<and>
        (\<forall>j. 0 \<le> j \<and> {0..j} \<subseteq> seen \<and> j + 1 \<notin> seen \<longrightarrow> map_of ?calls j = Some K)"
    by blast
  ultimately show ?thesis
    apply (simp add: Let_def)
    apply (elim conjE)
    apply (drule spec [of _ 0])
    apply simp
    done
qed

subsection \<open>Keys\<close>

text \<open>The model of \<^verbatim>\<open>Next\<close> is the spec's: the smallest strictly greater key.\<close>

lemma less_Next: "k < Next k"
  by (induction k) (simp_all add: Next_def)

lemma Next_least: "k < k' \<Longrightarrow> Next k \<le> k'"
proof (induction k arbitrary: k')
  case Nil
  then show ?case by (cases k') (simp_all add: Next_def word_gt_0)
next
  case (Cons a k)
  then show ?case by (cases k') (auto simp: Next_def)
qed

subsection \<open>The excluded end of a task\<close>

text \<open>
  Claim C9. \<^verbatim>\<open>excludedEndKey()\<close> is \<^verbatim>\<open>endKey.Next()\<close> when \<^verbatim>\<open>endInclude\<close> is true and
  \<^verbatim>\<open>endKey\<close> when it is false; so the excluded end is strictly greater than
  \<^verbatim>\<open>endKey\<close> exactly when the end is marked inclusive.
\<close>

theorem excludedEndKey_inclusive:
  "excludedEndKey r = (if endInclude r then Next (task_endKey r) else task_endKey r) \<and>
   (task_endKey r < excludedEndKey r \<longleftrightarrow> endInclude r)"
  by (simp add: excludedEndKey_def less_Next)

theorem excludedEndKey_inclusive_witness:
  "excludedEndKey \<lparr>bfJob = None,
       physicalTable = \<lparr>GetPhysicalID = 1, RecordPrefix = [116, 1], IndexPrefix = [116, 2]\<rparr>,
       task_id = 0, task_startKey = [116, 1], task_endKey = [116, 1, 9], endInclude = True,
       task_jobID = 5, sqlQuery = [], task_priority = 0\<rparr> = [116, 1, 9, 0] \<and>
   excludedEndKey \<lparr>bfJob = None,
       physicalTable = \<lparr>GetPhysicalID = 1, RecordPrefix = [116, 1], IndexPrefix = [116, 2]\<rparr>,
       task_id = 0, task_startKey = [116, 1], task_endKey = [116, 1, 9], endInclude = False,
       task_jobID = 5, sqlQuery = [], task_priority = 0\<rparr> = [116, 1, 9]"
  using
    excludedEndKey_inclusive [of "\<lparr>bfJob = None,
       physicalTable = \<lparr>GetPhysicalID = 1, RecordPrefix = [116, 1], IndexPrefix = [116, 2]\<rparr>,
       task_id = 0, task_startKey = [116, 1], task_endKey = [116, 1, 9], endInclude = True,
       task_jobID = 5, sqlQuery = [], task_priority = 0\<rparr>"]
    excludedEndKey_inclusive [of "\<lparr>bfJob = None,
       physicalTable = \<lparr>GetPhysicalID = 1, RecordPrefix = [116, 1], IndexPrefix = [116, 2]\<rparr>,
       task_id = 0, task_startKey = [116, 1], task_endKey = [116, 1, 9], endInclude = False,
       task_jobID = 5, sqlQuery = [], task_priority = 0\<rparr>"]
  by (simp add: Next_def)

subsection \<open>Collecting the results of a batch\<close>

lemma drainTasksFrom_length: "drainTasksFrom cnt taskCh = cnt + int (length taskCh)"
  by (induction taskCh arbitrary: cnt) auto

lemma drainTasks_length: "drainTasks taskCh = int (length taskCh)"
  by (simp add: drainTasks_def drainTasksFrom_length)

lemma waitTaskResultsLoop_reads_all:
  assumes "\<forall>s. workerSize scheduler s \<noteq> 0"
    and "\<forall>ev \<in> set resultCh. res_err (ev_result ev) \<noteq> None \<longrightarrow> ev_taskCh ev = []"
    and "taskSize = i + int (length resultCh)"
  shows "\<exists>st'. waitTaskResultsLoop scheduler i taskSize st resultCh = Inr st' \<and>
           ws_keeper st' = updateNextKeys (ws_keeper st) (successCalls resultCh) \<and>
           (ws_firstErr st \<noteq> None \<or> (\<exists>ev \<in> set resultCh. res_err (ev_result ev) \<noteq> None)
              \<longrightarrow> ws_firstErr st' \<noteq> None)"
  using assms
proof (induction resultCh arbitrary: i st)
  case Nil
  then show ?case by (simp add: successCalls_def)
next
  case (Cons ev resultCh)
  have lt: "i < taskSize" using Cons.prems(3) by simp
  have ws: "workerSize scheduler s \<noteq> 0" for s using Cons.prems(1) by simp
  have rest: "\<forall>ev \<in> set resultCh. res_err (ev_result ev) \<noteq> None \<longrightarrow> ev_taskCh ev = []"
    using Cons.prems(2) by simp
  have size: "taskSize = (i + 1) + int (length resultCh)" using Cons.prems(3) by simp
  note IH = Cons.IH [OF Cons.prems(1) rest size]
  show ?case
  proof (cases "res_err (ev_result ev) = None")
    case False
    then have "ev_taskCh ev = []" using Cons.prems(2) by simp
    then have step: "waitTaskResultsLoop scheduler i taskSize st (ev # resultCh) =
        waitTaskResultsLoop scheduler (i + 1) taskSize
          (if ws_firstErr st = None then st\<lparr>ws_firstErr := res_err (ev_result ev)\<rparr> else st) resultCh"
      using lt False by (simp add: Let_def drainTasks_length)
    from IH [of "if ws_firstErr st = None then st\<lparr>ws_firstErr := res_err (ev_result ev)\<rparr> else st"]
    show ?thesis
      unfolding step using False by (auto simp: successCalls_def)
  next
    case True
    let ?st1 = "st\<lparr>ws_totalAddedCount := ws_totalAddedCount st + addedCount (ev_result ev),
                   ws_addedCount := ws_addedCount st + addedCount (ev_result ev),
                   ws_keeper := updateNextKey (ws_keeper st) (taskID (ev_result ev))
                                  (res_nextKey (ev_result ev))\<rparr>"
    show ?thesis
    proof (cases "(i smod workerSize scheduler (ws_scheduler ?st1)) * 4 = 0")
      case adj: True
      obtain adjustErr s' where a: "adjustWorkerSize scheduler (ws_scheduler ?st1) = (adjustErr, s')"
        by (cases "adjustWorkerSize scheduler (ws_scheduler ?st1)")
      have step: "waitTaskResultsLoop scheduler i taskSize st (ev # resultCh) =
          waitTaskResultsLoop scheduler (i + 1) taskSize
            (?st1\<lparr>ws_scheduler := s', ws_adjustedAt := ws_adjustedAt ?st1 @ [i]\<rparr>) resultCh"
        using lt True adj a ws by (simp add: Let_def)
      from IH [of "?st1\<lparr>ws_scheduler := s', ws_adjustedAt := ws_adjustedAt ?st1 @ [i]\<rparr>"]
      show ?thesis
        unfolding step using True by (auto simp: successCalls_def)
    next
      case adj: False
      have step: "waitTaskResultsLoop scheduler i taskSize st (ev # resultCh) =
          waitTaskResultsLoop scheduler (i + 1) taskSize ?st1 resultCh"
        using lt True adj ws by (simp add: Let_def)
      from IH [of ?st1]
      show ?thesis
        unfolding step using True by (auto simp: successCalls_def)
    qed
  qed
qed


lemma successCalls_fst:
  "map fst (successCalls resultCh) =
     map (taskID \<circ> ev_result) (filter (\<lambda>ev. res_err (ev_result ev) = None) resultCh)"
  by (simp add: successCalls_def comp_def)

text \<open>
  Claim C2. A batch of \<open>n\<close> tasks with ids \<open>0..n-1\<close>; every task returns one result, in
  any order of arrival; exactly the task with id \<open>k\<close> returns an error. No task is left in
  \<^verbatim>\<open>taskCh\<close> when the failed result is read (a drained task would return no result), and
  the scheduler has at least one worker. Then \<^verbatim>\<open>waitTaskResults\<close> returns, with a
  non-nil error, and the key it returns is the \<^verbatim>\<open>nextKey\<close> of the result of task
  \<open>k - 1\<close> if \<open>k > 0\<close> and the start key of \<^verbatim>\<open>batchTasks[0]\<close> if \<open>k = 0\<close>.
\<close>

theorem waitTaskResults_failure_truncation:
  assumes nonempty: "batchTasks \<noteq> []"
    and dist: "distinct (map (taskID \<circ> ev_result) resultCh)"
    and ids: "(taskID \<circ> ev_result) ` set resultCh = {0..<int (length batchTasks)}"
    and k: "0 \<le> k" "k < int (length batchTasks)"
    and fails: "\<forall>ev \<in> set resultCh. (res_err (ev_result ev) \<noteq> None) = (taskID (ev_result ev) = k)"
    and undrained: "\<forall>ev \<in> set resultCh. res_err (ev_result ev) \<noteq> None \<longrightarrow> ev_taskCh ev = []"
    and workers: "\<forall>s. workerSize scheduler s \<noteq> 0"
  shows "\<exists>K added e st.
           waitTaskResults scheduler s batchTasks totalAddedCount resultCh
             = Inr ((K, added, Some e), st) \<and>
           (k = 0 \<longrightarrow> K = task_startKey (batchTasks ! 0)) \<and>
           (\<forall>ev \<in> set resultCh. taskID (ev_result ev) = k - 1 \<longrightarrow> K = res_nextKey (ev_result ev))"
proof -
  obtain task0 rest where bt: "batchTasks = task0 # rest"
    using nonempty by (cases batchTasks) auto
  let ?S = "task_startKey task0"
  let ?st0 = "\<lparr>ws_scheduler = s, ws_firstErr = None, ws_addedCount = 0,
               ws_totalAddedCount = totalAddedCount,
               ws_keeper = newDoneTaskKeeper ?S, ws_adjustedAt = []\<rparr>"
  let ?calls = "successCalls resultCh"
  have "length resultCh = card ((taskID \<circ> ev_result) ` set resultCh)"
    using distinct_card [OF dist] by simp
  then have len: "int (length batchTasks) = 0 + int (length resultCh)"
    using ids by simp
  have failing: "\<exists>ev \<in> set resultCh. res_err (ev_result ev) \<noteq> None"
  proof -
    from k ids have "k \<in> (taskID \<circ> ev_result) ` set resultCh" by simp
    then obtain ev where "ev \<in> set resultCh" "taskID (ev_result ev) = k" by auto
    with fails show ?thesis by blast
  qed
  from waitTaskResultsLoop_reads_all [OF workers undrained len, of ?st0] failing
  obtain st' where loop: "waitTaskResultsLoop scheduler 0 (int (length batchTasks)) ?st0 resultCh = Inr st'"
    and keeper: "ws_keeper st' = updateNextKeys (newDoneTaskKeeper ?S) ?calls"
    and failed: "ws_firstErr st' \<noteq> None"
    by auto
  from failed obtain e where e: "ws_firstErr st' = Some e" by auto
  have ret: "waitTaskResults scheduler s batchTasks totalAddedCount resultCh
               = Inr ((nextKey (ws_keeper st'), ws_addedCount st', Some e), st')"
    using loop e unfolding waitTaskResults_def bt by simp
  define \<kappa> where "\<kappa> i = the (map_of ?calls i)" for i
  have dcalls: "distinct (map fst ?calls)"
    unfolding successCalls_fst using dist by (rule distinct_map_filter)
  have carried: "\<kappa> (taskID (ev_result ev)) = res_nextKey (ev_result ev)"
    if "ev \<in> set resultCh" "res_err (ev_result ev) = None" for ev
  proof -
    from that have "(taskID (ev_result ev), res_nextKey (ev_result ev)) \<in> set ?calls"
      by (auto simp: successCalls_def)
    with dcalls show ?thesis by (simp add: \<kappa>_def)
  qed
  have seen: "fst ` set ?calls = {0..<int (length batchTasks)} - {k}"
  proof -
    have ok: "res_err (ev_result ev) = None \<longleftrightarrow> taskID (ev_result ev) \<noteq> k"
      if "ev \<in> set resultCh" for ev
      using fails that by blast
    have "fst ` set ?calls =
            (taskID \<circ> ev_result) ` {ev \<in> set resultCh. res_err (ev_result ev) = None}"
      by (auto simp: successCalls_def image_iff)
    also have "\<dots> = {i \<in> (taskID \<circ> ev_result) ` set resultCh. i \<noteq> k}"
      using ok by auto
    finally show ?thesis using ids by auto
  qed
  have inv: "keeper_inv ?S \<kappa> (fst ` set ?calls) (ws_keeper st')"
    unfolding keeper
  proof (rule updateNextKeys_inv [OF dcalls])
    show "\<forall>(i, key) \<in> set ?calls. 0 \<le> i \<and> \<kappa> i = key"
    proof (clarify, intro conjI)
      fix i key assume mem: "(i, key) \<in> set ?calls"
      then have "i \<in> fst ` set ?calls" by force
      then show "0 \<le> i" by (simp add: seen)
      from mem dcalls show "\<kappa> i = key" by (simp add: \<kappa>_def)
    qed
  qed
  have first: "nextKey (ws_keeper st') = task_startKey (batchTasks ! 0)" if "k = 0"
    using keeper_inv_start [OF inv] that by (simp add: seen bt)
  have later: "nextKey (ws_keeper st') = res_nextKey (ev_result ev)"
    if "ev \<in> set resultCh" "taskID (ev_result ev) = k - 1" for ev
  proof -
    from that have "k - 1 \<in> (taskID \<circ> ev_result) ` set resultCh" by force
    with ids have "0 \<le> k - 1" by simp
    moreover from this k have "{0..k - 1} \<subseteq> fst ` set ?calls" by (auto simp: seen)
    moreover have "k - 1 + 1 \<notin> fst ` set ?calls" by (simp add: seen)
    ultimately have "nextKey (ws_keeper st') = \<kappa> (k - 1)"
      using inv by (intro keeper_inv_key)
    moreover from that fails have "res_err (ev_result ev) = None" by auto
    ultimately show ?thesis using carried [OF that(1)] that(2) by simp
  qed
  show ?thesis
    using ret first later by blast
qed


theorem waitTaskResults_failure_truncation_witness:
  "\<exists>added e st.
     waitTaskResults (demoScheduler 2) () demoBatch 0
       [arrives 2 [4, 0] None, arrives 1 [2, 5] (Some (ErrOther [])), arrives 0 [2] None]
     = Inr (([2], added, Some e), st)"
proof -
  let ?ch = "[arrives 2 [4, 0] None, arrives 1 [2, 5] (Some (ErrOther [])), arrives 0 [2] None]"
  have "\<exists>K added e st.
           waitTaskResults (demoScheduler 2) () demoBatch 0 ?ch = Inr ((K, added, Some e), st) \<and>
           (1 = (0::int) \<longrightarrow> K = task_startKey (demoBatch ! 0)) \<and>
           (\<forall>ev \<in> set ?ch. taskID (ev_result ev) = 1 - 1 \<longrightarrow> K = res_nextKey (ev_result ev))"
  proof (rule waitTaskResults_failure_truncation)
    show "demoBatch \<noteq> []" by (simp add: demoBatch_def)
    show "distinct (map (taskID \<circ> ev_result) ?ch)" by (simp add: arrives_def)
    show "(taskID \<circ> ev_result) ` set ?ch = {0..<int (length demoBatch)}"
      by (auto simp: arrives_def demoBatch_def)
    show "(0::int) \<le> 1" by simp
    show "1 < int (length demoBatch)" by (simp add: demoBatch_def)
    show "\<forall>ev \<in> set ?ch. (res_err (ev_result ev) \<noteq> None) = (taskID (ev_result ev) = 1)"
      by (simp add: arrives_def)
    show "\<forall>ev \<in> set ?ch. res_err (ev_result ev) \<noteq> None \<longrightarrow> ev_taskCh ev = []"
      by (simp add: arrives_def)
    show "\<forall>s. workerSize (demoScheduler 2) s \<noteq> 0" by (simp add: demoScheduler_def)
  qed
  then show ?thesis by (auto simp: arrives_def)
qed

subsection \<open>When the worker size is adjusted\<close>

text \<open>
  Claim C5, evaluated on the code. With two workers and three successful results,
  \<^verbatim>\<open>adjustWorkerSize\<close> is called at the loop indices 0 and 2, and 2 is not a multiple of
  \<^verbatim>\<open>workerSize * 4 = 8\<close>: the condition \<^verbatim>\<open>i%scheduler.workerSize()*4 == 0\<close> parses
  as \<^verbatim>\<open>(i % workerSize) * 4 == 0\<close>.
\<close>

theorem waitTaskResults_adjust_evaluated:
  "\<exists>r st.
     waitTaskResults (demoScheduler 2) () demoBatch 0
       [arrives 0 [2] None, arrives 1 [3] None, arrives 2 [4, 0] None] = Inr (r, st) \<and>
     ws_adjustedAt st = [0, 2] \<and> \<not> (workerSize (demoScheduler 2) () * 4) dvd 2"
  by (simp add: waitTaskResults_def demoBatch_def demoTask_def demoScheduler_def arrives_def
      newDoneTaskKeeper_def updateNextKey_def drainDoneTasks.simps signed_modulo_int_def Let_def)


subsection \<open>Persisting the progress of a batch\<close>

lemma sendTasks_frame:
  "ds_scheduler (sendTasks scheduler batchTasks ds) = ds_scheduler ds \<and>
   ds_totalAddedCount (sendTasks scheduler batchTasks ds) = ds_totalAddedCount ds \<and>
   ds_reorgMeta (sendTasks scheduler batchTasks ds) = ds_reorgMeta ds"
  by (induction batchTasks arbitrary: ds) (simp_all add: Let_def)

text \<open>
  Claim C3. Whenever \<^verbatim>\<open>sendTasksAndWait\<close> returns (with or without an error),
  \<^verbatim>\<open>waitTaskResults\<close> has returned some \<^verbatim>\<open>nextKey\<close>, and
  \<^verbatim>\<open>UpdateReorgMeta\<close> has been called exactly once more than before, with that key. The
  value returned is the error of \<^verbatim>\<open>waitTaskResults\<close>, or without one the result of the
  runnability check.
\<close>

theorem sendTasksAndWait_persists_nextKey:
  assumes "sendTasksAndWait scheduler isReorgRunnable reorgJobID batchTasks resultCh ds
             = Inr (ret, ds')"
  shows "\<exists>nextK added waitErr st.
           waitTaskResults scheduler (ds_scheduler ds) batchTasks (ds_totalAddedCount ds) resultCh
             = Inr ((nextK, added, waitErr), st) \<and>
           ds_reorgMeta ds' = ds_reorgMeta ds @ [nextK] \<and>
           ret = (if waitErr = None then isReorgRunnable reorgJobID False else waitErr)"
proof (cases "waitTaskResults scheduler (ds_scheduler ds) batchTasks (ds_totalAddedCount ds) resultCh")
  case (Inl a)
  with assms show ?thesis
    by (simp add: sendTasksAndWait_def sendTasks_frame)
next
  case (Inr r)
  obtain nextK added waitErr st where r: "r = ((nextK, added, waitErr), st)"
    by (cases r) auto
  from assms Inr r have "ds_reorgMeta ds' = ds_reorgMeta ds @ [nextK]"
    and "ret = (if waitErr = None then isReorgRunnable reorgJobID False else waitErr)"
    by (auto simp: sendTasksAndWait_def sendTasks_frame Let_def split: if_splits)
  with Inr r show ?thesis by simp
qed

lemmas demo_defs =
  sendTasksAndWait_def waitTaskResults_def demoBatch_def demoTask_def demoScheduler_def
  arrives_def newDoneTaskKeeper_def updateNextKey_def drainDoneTasks.simps
  signed_modulo_int_def Let_def demoDriver_def drainTasks_def

theorem sendTasksAndWait_persists_nextKey_witness:
  "(\<exists>ds'. sendTasksAndWait (demoScheduler 2) (\<lambda>_ _. None) 7 demoBatch
            [arrives 2 [4, 0] None, arrives 1 [3] None, arrives 0 [2] None] demoDriver
            = Inr (None, ds') \<and> ds_reorgMeta ds' = [[4, 0]]) \<and>
   (\<exists>ds'. sendTasksAndWait (demoScheduler 2) (\<lambda>_ _. None) 7 demoBatch
            [arrives 2 [4, 0] None, arrives 1 [2, 5] (Some ErrReorgPanic), arrives 0 [2] None]
            demoDriver
            = Inr (Some ErrReorgPanic, ds') \<and> ds_reorgMeta ds' = [[2]]) \<and>
   (\<exists>ds'. sendTasksAndWait (demoScheduler 2) (\<lambda>_ _. Some (ErrOther [])) 7 demoBatch
            [arrives 2 [4, 0] None, arrives 1 [3] None, arrives 0 [2] None] demoDriver
            = Inr (Some (ErrOther []), ds') \<and> ds_reorgMeta ds' = [[4, 0]])"
proof (intro conjI)
  let ?ok = "[arrives 2 [4, 0] None, arrives 1 [3] None, arrives 0 [2] None]"
  let ?bad = "[arrives 2 [4, 0] None, arrives 1 [2, 5] (Some ErrReorgPanic), arrives 0 [2] None]"
  have w_ok: "\<exists>added st. waitTaskResults (demoScheduler 2) (ds_scheduler demoDriver) demoBatch
                 (ds_totalAddedCount demoDriver) ?ok = Inr (([4, 0], added, None), st)"
    by (simp add: demo_defs)
  have w_bad: "\<exists>added st. waitTaskResults (demoScheduler 2) (ds_scheduler demoDriver) demoBatch
                 (ds_totalAddedCount demoDriver) ?bad = Inr (([2], added, Some ErrReorgPanic), st)"
    by (simp add: demo_defs)
  have "\<exists>ret ds'. sendTasksAndWait (demoScheduler 2) (\<lambda>_ _. None) 7 demoBatch ?ok demoDriver
          = Inr (ret, ds')"
    by (simp add: demo_defs)
  then obtain ret ds' where r: "sendTasksAndWait (demoScheduler 2) (\<lambda>_ _. None) 7 demoBatch ?ok
      demoDriver = Inr (ret, ds')" by blast
  from sendTasksAndWait_persists_nextKey [OF r] w_ok r
  show "\<exists>ds'. sendTasksAndWait (demoScheduler 2) (\<lambda>_ _. None) 7 demoBatch ?ok demoDriver
            = Inr (None, ds') \<and> ds_reorgMeta ds' = [[4, 0]]"
    by (auto simp: demoDriver_def)
  have "\<exists>ret ds'. sendTasksAndWait (demoScheduler 2) (\<lambda>_ _. None) 7 demoBatch ?bad demoDriver
          = Inr (ret, ds')"
    by (simp add: demo_defs)
  then obtain ret ds' where r: "sendTasksAndWait (demoScheduler 2) (\<lambda>_ _. None) 7 demoBatch ?bad
      demoDriver = Inr (ret, ds')" by blast
  from sendTasksAndWait_persists_nextKey [OF r] w_bad r
  show "\<exists>ds'. sendTasksAndWait (demoScheduler 2) (\<lambda>_ _. None) 7 demoBatch ?bad demoDriver
            = Inr (Some ErrReorgPanic, ds') \<and> ds_reorgMeta ds' = [[2]]"
    by (auto simp: demoDriver_def)
  have "\<exists>ret ds'. sendTasksAndWait (demoScheduler 2) (\<lambda>_ _. Some (ErrOther [])) 7 demoBatch ?ok
          demoDriver = Inr (ret, ds')"
    by (simp add: demo_defs)
  then obtain ret ds' where r: "sendTasksAndWait (demoScheduler 2) (\<lambda>_ _. Some (ErrOther [])) 7
      demoBatch ?ok demoDriver = Inr (ret, ds')" by blast
  from sendTasksAndWait_persists_nextKey [OF r] w_ok r
  show "\<exists>ds'. sendTasksAndWait (demoScheduler 2) (\<lambda>_ _. Some (ErrOther [])) 7 demoBatch ?ok
            demoDriver = Inr (Some (ErrOther []), ds') \<and> ds_reorgMeta ds' = [[4, 0]]"
    by (auto simp: demoDriver_def)
qed


subsection \<open>Splitting the key range of a table\<close>

text \<open>
  Claim C6. When the store is not a \<^verbatim>\<open>tikv.Storage\<close>, \<^verbatim>\<open>splitTableRanges\<close> returns
  the single input range and no error. When it is one and \<^verbatim>\<open>SplitRegionRanges\<close> returns
  an empty list without error, it returns no ranges and
  \<^verbatim>\<open>ErrInvalidSplitRegionRanges\<close>.
\<close>

theorem splitTableRanges_single_or_invalid:
  "(\<forall>snaps. splitTableRanges t (OtherStorage snaps) startKey endKey limit
             = ([\<lparr>StartKey = startKey, EndKey = endKey\<rparr>], None)) \<and>
   (\<forall>snaps rc. rc [\<lparr>StartKey = startKey, EndKey = endKey\<rparr>] limit = Inr [] \<longrightarrow>
        splitTableRanges t (TikvStorage snaps rc) startKey endKey limit
          = ([], Some (ErrInvalidSplitRegionRanges startKey endKey)))"
  by (simp add: splitTableRanges_def)

theorem splitTableRanges_single_or_invalid_witness:
  "splitTableRanges demoTable (demoStore []) [116, 1] [116, 2] 1024
     = ([\<lparr>StartKey = [116, 1], EndKey = [116, 2]\<rparr>], None) \<and>
   splitTableRanges demoTable (TikvStorage (\<lambda>_. demoSnapshot []) (\<lambda>ranges limit. Inr []))
       [116, 1] [116, 2] 1024
     = ([], Some (ErrInvalidSplitRegionRanges [116, 1] [116, 2]))"
  using splitTableRanges_single_or_invalid [of demoTable "[116, 1]" "[116, 2]" 1024]
  by (simp add: demoStore_def)

subsection \<open>The last existing key of a range\<close>

lemma less_Next_iff: "k' < Next k \<longleftrightarrow> k' \<le> k"
  using less_Next [of k] Next_least [of k k'] by (meson leD leI order_le_less_trans)

lemma Next_nonempty: "Next k \<noteq> []"
  by (simp add: Next_def)

lemma sorted_last_greatest:
  assumes "sorted (map f xs)" "x \<in> set xs" 
  shows "f x \<le> f (last xs)"
  using assms
proof (induction xs)
  case Nil
  then show ?case by simp
next
  case (Cons a xs)
  show ?case
  proof (cases "xs = []")
    case True
    with Cons.prems show ?thesis by simp
  next
    case False
    then have "last xs \<in> set xs" by simp
    with Cons False show ?thesis by auto
  qed
qed

lemma IterReverse_position:
  assumes "snap_iterErr snap = None"
  shows "\<exists>it. IterReverse snap (Next endKey) = Inr it \<and>
           (\<not> Valid it \<longrightarrow> (\<forall>k \<in> fst ` set (snap_data snap). \<not> k \<le> endKey)) \<and>
           (Valid it \<longrightarrow> largestKeyUpTo snap endKey (Key it))"
proof -
  let ?below = "filter (\<lambda>(k', v). Next endKey = [] \<or> k' < Next endKey) (snap_data snap)"
  let ?sorted = "sort_key fst ?below"
  let ?it = "\<lparr>it_entries = rev ?sorted, it_nextErr = snap_nextErr snap\<rparr>"
  have set_below: "fst ` set ?sorted = {k \<in> fst ` set (snap_data snap). k \<le> endKey}"
    by (auto simp: less_Next_iff Next_nonempty image_iff)
  have 1: "IterReverse snap (Next endKey) = Inr ?it"
    using assms by (simp add: IterReverse_def)
  have 2: "\<forall>k \<in> fst ` set (snap_data snap). \<not> k \<le> endKey" if "\<not> Valid ?it"
  proof -
    from that have "?sorted = []" by (simp add: Valid_def)
    then have "{k \<in> fst ` set (snap_data snap). k \<le> endKey} = {}"
      using set_below by simp
    then show ?thesis by blast
  qed
  have 3: "largestKeyUpTo snap endKey (Key ?it)" if "Valid ?it"
  proof -
    from that have ne: "?sorted \<noteq> []" by (simp add: Valid_def)
    then have key: "Key ?it = fst (last ?sorted)" by (simp add: Key_def hd_rev)
    have "last ?sorted \<in> set ?sorted" using ne by (rule last_in_set)
    then have "fst (last ?sorted) \<in> fst ` set ?sorted" by (rule imageI)
    with set_below have mem: "fst (last ?sorted) \<in> fst ` set (snap_data snap)"
      and le: "fst (last ?sorted) \<le> endKey" by auto
    have max: "k \<le> fst (last ?sorted)" if "k \<in> fst ` set (snap_data snap)" "k \<le> endKey" for k
    proof -
      from that set_below have "k \<in> fst ` set ?sorted" by blast
      then obtain x where "x \<in> set ?sorted" "k = fst x" by auto
      then show ?thesis using sorted_last_greatest [of fst ?sorted x] by simp
    qed
    show ?thesis unfolding largestKeyUpTo_def key using mem le max by blast
  qed
  from 1 2 3 show ?thesis by blast
qed


lemma HasPrefix_Cons:
  "HasPrefix k (x # p) \<longleftrightarrow> (\<exists>k'. k = x # k' \<and> HasPrefix k' p)"
  by (cases k) (auto simp: HasPrefix_def)

lemma HasPrefix_between:
  "HasPrefix a p \<Longrightarrow> HasPrefix b p \<Longrightarrow> a \<le> m \<Longrightarrow> m \<le> b \<Longrightarrow> HasPrefix m p"
proof (induction p arbitrary: a b m)
  case Nil
  show ?case by (simp add: HasPrefix_def)
next
  case (Cons x p)
  from Cons.prems(1,2) obtain a' b' where a: "a = x # a'" "HasPrefix a' p"
    and b: "b = x # b'" "HasPrefix b' p"
    by (auto simp: HasPrefix_Cons)
  from Cons.prems(3) a obtain y m' where m: "m = y # m'"
    by (cases m) auto
  from Cons.prems(3,4) a b m have "y = x" "a' \<le> m'" "m' \<le> b'"
    by auto
  with Cons.IH [OF a(2) b(2)] m show ?case
    by (simp add: HasPrefix_Cons)
qed

lemma largestKeyUpTo_unique:
  "largestKeyUpTo snap endKey m \<Longrightarrow> largestKeyUpTo snap endKey m' \<Longrightarrow> m = m'"
  unfolding largestKeyUpTo_def by (meson order_antisym)

lemma Cmp_less: "Cmp k other < 0 \<longleftrightarrow> k < other"
  by (simp add: Cmp_def)

lemma Cmp_eq: "Cmp k other = 0 \<longleftrightarrow> k = other"
  by (simp add: Cmp_def)

lemma getRangeEndKey_found:
  assumes ok: "snap_iterErr (GetSnapshot store MaxVersion) = None"
    and m: "largestKeyUpTo (GetSnapshot store MaxVersion) endKey m"
    and pre: "HasPrefix m keyPrefix" and ge: "startKey \<le> m"
  shows "getRangeEndKey store priority keyPrefix startKey endKey = (m, None)"
proof -
  from ok obtain it where it: "IterReverse (GetSnapshot store MaxVersion) (Next endKey) = Inr it"
    and invalid: "\<not> Valid it \<Longrightarrow>
          \<forall>k \<in> fst ` set (snap_data (GetSnapshot store MaxVersion)). \<not> k \<le> endKey"
    and valid: "Valid it \<Longrightarrow> largestKeyUpTo (GetSnapshot store MaxVersion) endKey (Key it)"
    using IterReverse_position [OF ok, of endKey] by blast
  have v: "Valid it"
    using invalid m unfolding largestKeyUpTo_def by blast
  then have "Key it = m"
    using valid m by (blast intro: largestKeyUpTo_unique)
  with v it pre ge show ?thesis
    by (simp add: getRangeEndKey_def Cmp_less not_less [symmetric])
qed

lemma getRangeEndKey_fallback:
  assumes ok: "snap_iterErr (GetSnapshot store MaxVersion) = None"
    and none: "\<forall>m. largestKeyUpTo (GetSnapshot store MaxVersion) endKey m \<longrightarrow>
                 \<not> HasPrefix m keyPrefix \<or> m < startKey"
  shows "getRangeEndKey store priority keyPrefix startKey endKey = (startKey, None)"
proof -
  from ok obtain it where it: "IterReverse (GetSnapshot store MaxVersion) (Next endKey) = Inr it"
    and valid: "Valid it \<Longrightarrow> largestKeyUpTo (GetSnapshot store MaxVersion) endKey (Key it)"
    using IterReverse_position [OF ok, of endKey] by blast
  show ?thesis
  proof (cases "Valid it")
    case False
    with it show ?thesis by (simp add: getRangeEndKey_def)
  next
    case True
    with valid none have "\<not> HasPrefix (Key it) keyPrefix \<or> Key it < startKey" by blast
    with it show ?thesis by (auto simp: getRangeEndKey_def Cmp_less)
  qed
qed

text \<open>
  Claim C8, as amended. Let the reverse iterator open without error. If the largest
  existing key up to \<open>endKey\<close> has \<open>keyPrefix\<close> as a prefix and is at least \<open>startKey\<close>,
  \<^verbatim>\<open>getRangeEndKey\<close> returns it. In every other case, in particular when no existing key
  up to \<open>endKey\<close> has the prefix, it returns \<open>startKey\<close> (not \<open>endKey\<close>). When \<open>endKey\<close> itself
  has \<open>keyPrefix\<close> as a prefix, the first case is the claim's: the largest existing key that
  is at most \<open>endKey\<close> and has the prefix is returned whenever it is at least \<open>startKey\<close>.
\<close>

theorem getRangeEndKey_largest_or_start:
  assumes ok: "snap_iterErr (GetSnapshot store MaxVersion) = None"
  shows
    "(\<forall>m. largestKeyUpTo (GetSnapshot store MaxVersion) endKey m \<and>
          HasPrefix m keyPrefix \<and> startKey \<le> m \<longrightarrow>
          getRangeEndKey store priority keyPrefix startKey endKey = (m, None)) \<and>
     ((\<forall>m. largestKeyUpTo (GetSnapshot store MaxVersion) endKey m \<longrightarrow>
           \<not> HasPrefix m keyPrefix \<or> m < startKey) \<longrightarrow>
          getRangeEndKey store priority keyPrefix startKey endKey = (startKey, None)) \<and>
     (HasPrefix endKey keyPrefix \<longrightarrow>
        (\<forall>m \<in> fst ` set (snap_data (GetSnapshot store MaxVersion)).
           m \<le> endKey \<and> HasPrefix m keyPrefix \<and> startKey \<le> m \<and>
           (\<forall>k \<in> fst ` set (snap_data (GetSnapshot store MaxVersion)).
               k \<le> endKey \<and> HasPrefix k keyPrefix \<longrightarrow> k \<le> m) \<longrightarrow>
           getRangeEndKey store priority keyPrefix startKey endKey = (m, None)))"
proof (intro conjI allI impI ballI)
  fix m
  assume "largestKeyUpTo (GetSnapshot store MaxVersion) endKey m \<and>
          HasPrefix m keyPrefix \<and> startKey \<le> m"
  then show "getRangeEndKey store priority keyPrefix startKey endKey = (m, None)"
    using getRangeEndKey_found [OF ok] by blast
next
  assume "\<forall>m. largestKeyUpTo (GetSnapshot store MaxVersion) endKey m \<longrightarrow>
           \<not> HasPrefix m keyPrefix \<or> m < startKey"
  then show "getRangeEndKey store priority keyPrefix startKey endKey = (startKey, None)"
    by (rule getRangeEndKey_fallback [OF ok])
next
  let ?keys = "fst ` set (snap_data (GetSnapshot store MaxVersion))"
  fix m
  assume e: "HasPrefix endKey keyPrefix" and mem: "m \<in> ?keys"
    and m: "m \<le> endKey \<and> HasPrefix m keyPrefix \<and> startKey \<le> m \<and>
            (\<forall>k \<in> ?keys. k \<le> endKey \<and> HasPrefix k keyPrefix \<longrightarrow> k \<le> m)"
  from ok obtain it where it: "IterReverse (GetSnapshot store MaxVersion) (Next endKey) = Inr it"
    and invalid: "\<not> Valid it \<Longrightarrow> \<forall>k \<in> ?keys. \<not> k \<le> endKey"
    and valid: "Valid it \<Longrightarrow> largestKeyUpTo (GetSnapshot store MaxVersion) endKey (Key it)"
    using IterReverse_position [OF ok, of endKey] by blast
  have "Valid it" using invalid mem m by blast
  with valid have top: "largestKeyUpTo (GetSnapshot store MaxVersion) endKey (Key it)" .
  then have "m \<le> Key it" "Key it \<le> endKey" "Key it \<in> ?keys"
    using mem m unfolding largestKeyUpTo_def by auto
  moreover from this m e have "HasPrefix (Key it) keyPrefix"
    by (blast intro: HasPrefix_between)
  ultimately have "Key it = m" using m by (meson order_antisym)
  with top m show "getRangeEndKey store priority keyPrefix startKey endKey = (m, None)"
    using getRangeEndKey_found [OF ok] by blast
qed

lemmas store_defs =
  getRangeEndKey_def demoStore_def demoSnapshot_def IterReverse_def Next_def Valid_def Key_def
  HasPrefix_def Cmp_def

theorem getRangeEndKey_largest_or_start_witness:
  "getRangeEndKey (demoStore [([116, 1, 5], []), ([116, 1, 7], []), ([116, 2, 0], [])]) 0
       [116, 1] [116, 1] [116, 1, 9] = ([116, 1, 7], None) \<and>
   getRangeEndKey (demoStore []) 0 [116, 1] [116, 1, 2] [116, 1, 9] = ([116, 1, 2], None)"
proof -
  let ?store = "demoStore [([116, 1, 5], []), ([116, 1, 7], []), ([116, 2, 0], [])]"
  have ok: "snap_iterErr (GetSnapshot ?store MaxVersion) = None"
    by (simp add: demoStore_def demoSnapshot_def)
  have top: "largestKeyUpTo (GetSnapshot ?store MaxVersion) [116, 1, 9] [116, 1, 7] \<and>
             HasPrefix [116, 1, 7] [116, 1] \<and> [116, 1] \<le> [116, 1, 7 :: byte]"
    by (simp add: largestKeyUpTo_def demoStore_def demoSnapshot_def HasPrefix_def)
  have ok0: "snap_iterErr (GetSnapshot (demoStore []) MaxVersion) = None"
    by (simp add: demoStore_def demoSnapshot_def)
  have none: "\<forall>m. largestKeyUpTo (GetSnapshot (demoStore []) MaxVersion) [116, 1, 9] m \<longrightarrow>
                \<not> HasPrefix m [116, 1] \<or> m < [116, 1, 2]"
    by (simp add: largestKeyUpTo_def demoStore_def demoSnapshot_def)
  from getRangeEndKey_largest_or_start [OF ok, of "[116, 1, 9]" "[116, 1]" "[116, 1]" 0] top
    getRangeEndKey_largest_or_start [OF ok0, of "[116, 1, 9]" "[116, 1]" "[116, 1, 2]" 0] none
  show ?thesis by blast
qed

text \<open>
  The claim as stated fails twice. On an empty snapshot the value returned is
  \<open>startKey\<close>, not \<open>endKey\<close>. And with the keys \<open>[116, 1, 5]\<close> and \<open>[116, 2, 0]\<close>, prefix
  \<open>[116, 1]\<close> and \<open>endKey = [116, 2, 0]\<close>, the key \<open>[116, 1, 5]\<close> is the largest with the prefix
  and lies in the range, but \<open>startKey\<close> is returned, because only the largest key up to
  \<open>endKey\<close> is looked at and it has another prefix.
\<close>

theorem getRangeEndKey_counterexample:
  "\<not> (\<exists>k \<in> fst ` set (snap_data (GetSnapshot (demoStore []) MaxVersion)).
         k \<le> [116, 1, 9] \<and> HasPrefix k [116, 1] \<and> [116, 1, 2] \<le> k) \<and>
   fst (getRangeEndKey (demoStore []) 0 [116, 1] [116, 1, 2] [116, 1, 9]) \<noteq> [116, 1, 9] \<and>
   [116, 1, 5] \<in> fst ` set (snap_data (GetSnapshot
      (demoStore [([116, 1, 5], []), ([116, 2, 0], [])]) MaxVersion)) \<and>
   HasPrefix [116, 1, 5] [116, 1] \<and> [116, 1, 5] \<le> [116, 2, 0 :: byte] \<and>
   [116, 1] \<le> [116, 1, 5 :: byte] \<and>
   fst (getRangeEndKey (demoStore [([116, 1, 5], []), ([116, 2, 0], [])]) 0
          [116, 1] [116, 1] [116, 2, 0]) = [116, 1]"
  by (simp add: store_defs)


subsection \<open>Building the tasks of a batch\<close>

lemma getBatchTasksLoop_nth:
  "j < length (getBatchTasksLoop phyTbl ri prefix n batch i kvRanges batchTasks) \<Longrightarrow>
     (if j < length batchTasks
      then getBatchTasksLoop phyTbl ri prefix n batch i kvRanges batchTasks ! j = batchTasks ! j
      else j - length batchTasks < length kvRanges \<and>
           getBatchTasksLoop phyTbl ri prefix n batch i kvRanges batchTasks ! j =
             rangeTask phyTbl ri prefix n (i + int (j - length batchTasks))
               (kvRanges ! (j - length batchTasks)))"
proof (induction kvRanges arbitrary: i batchTasks)
  case Nil
  then show ?case by simp
next
  case (Cons keyRange kvRanges)
  let ?acc = "batchTasks @ [rangeTask phyTbl ri prefix n i keyRange]"
  show ?case
  proof (cases "int (length ?acc) \<ge> batch")
    case True
    with Cons.prems show ?thesis
      by (auto simp: Let_def nth_append)
  next
    case False
    then have step: "getBatchTasksLoop phyTbl ri prefix n batch i (keyRange # kvRanges) batchTasks
        = getBatchTasksLoop phyTbl ri prefix n batch (i + 1) kvRanges ?acc"
      by (simp add: Let_def)
    from Cons.prems have "j < length (getBatchTasksLoop phyTbl ri prefix n batch (i + 1) kvRanges ?acc)"
      by (simp only: step)
    from Cons.IH [OF this] show ?thesis
      unfolding step
      by (cases "j < length batchTasks"; cases "j = length batchTasks")
         (auto simp: nth_append nth_Cons' Suc_diff_le of_nat_diff algebra_simps)
  qed
qed

lemma endInclude_rangeTask:
  "endInclude (rangeTask phyTbl ri prefix n i keyRange) \<longleftrightarrow>
     fst (getRangeEndKey (ri_store ri) (ri_JobPriority ri) prefix
            (StartKey keyRange) (EndKey keyRange)) \<noteq> EndKey keyRange \<or> i = n - 1"
  by (simp add: rangeTask_def Let_def Cmp_eq split: prod.splits)

lemma task_id_rangeTask: "task_id (rangeTask phyTbl ri prefix n i keyRange) = i"
  by (simp add: rangeTask_def Let_def split: prod.splits)

text \<open>
  Claim C4, as amended. The task at index \<open>j\<close> of the batch is built from the range at
  index \<open>j\<close>, and its \<^verbatim>\<open>endInclude\<close> is true exactly when the end key returned by
  \<^verbatim>\<open>getRangeEndKey\<close> differs from the range's declared \<^verbatim>\<open>EndKey\<close> or the range is the
  last of \<^verbatim>\<open>kvRanges\<close>; it is false when the two keys are equal and the range is not the
  last.
\<close>

theorem getBatchTasks_endInclude:
  assumes "getBatchTasks t reorgInfo kvRanges batch = Inr batchTasks"
    and "j < length batchTasks"
  shows "j < length kvRanges \<and> task_id (batchTasks ! j) = int j \<and>
         (endInclude (batchTasks ! j) \<longleftrightarrow>
            fst (getRangeEndKey (ri_store reorgInfo) (ri_JobPriority reorgInfo)
                   (if mergingTmpIdx reorgInfo then IndexPrefix t else RecordPrefix t)
                   (StartKey (kvRanges ! j)) (EndKey (kvRanges ! j))) \<noteq> EndKey (kvRanges ! j)
            \<or> Suc j = length kvRanges)"
proof -
  let ?prefix = "if mergingTmpIdx reorgInfo then IndexPrefix t else RecordPrefix t"
  from assms(1) have tasks: "batchTasks =
      getBatchTasksLoop t reorgInfo ?prefix (int (length kvRanges)) batch 0 kvRanges []"
    by (auto simp: getBatchTasks_def Let_def split: if_splits)
  from getBatchTasksLoop_nth [of j t reorgInfo ?prefix "int (length kvRanges)" batch 0 kvRanges "[]"]
    assms(2)
  have j: "j < length kvRanges"
    and nth: "batchTasks ! j = rangeTask t reorgInfo ?prefix (int (length kvRanges)) (int j) (kvRanges ! j)"
    unfolding tasks by auto
  have "int j = int (length kvRanges) - 1 \<longleftrightarrow> Suc j = length kvRanges"
    using j by auto
  with j show ?thesis
    unfolding nth by (simp only: endInclude_rangeTask task_id_rangeTask)
qed

lemmas batch_defs =
  getBatchTasks_def rangeTask_def demoReorgInfo_def demoTable_def Let_def PrefixNext_def

theorem getBatchTasks_endInclude_witness:
  "\<exists>batchTasks.
     getBatchTasks demoTable
       (demoReorgInfo [([116, 1, 95, 114, 5], []), ([116, 1, 95, 114, 20], [])])
       [\<lparr>StartKey = [116, 1, 95, 114], EndKey = [116, 1, 95, 114, 9]\<rparr>,
        \<lparr>StartKey = [116, 1, 95, 114, 9], EndKey = [116, 1, 95, 114, 20]\<rparr>] 1024
       = Inr batchTasks \<and>
     length batchTasks = 2 \<and> endInclude (batchTasks ! 0) \<and> endInclude (batchTasks ! 1)"
proof -
  let ?ri = "demoReorgInfo [([116, 1, 95, 114, 5], []), ([116, 1, 95, 114, 20], [])]"
  let ?ranges = "[\<lparr>StartKey = [116, 1, 95, 114], EndKey = [116, 1, 95, 114, 9]\<rparr>,
                  \<lparr>StartKey = [116, 1, 95, 114, 9], EndKey = [116, 1, 95, 114, 20]\<rparr>]"
  have "\<exists>batchTasks. getBatchTasks demoTable ?ri ?ranges 1024 = Inr batchTasks \<and>
          length batchTasks = 2"
    by (simp add: getBatchTasks_def Let_def)
  then obtain batchTasks where r: "getBatchTasks demoTable ?ri ?ranges 1024 = Inr batchTasks"
    and len: "length batchTasks = 2" by blast
  have e0: "fst (getRangeEndKey (ri_store ?ri) (ri_JobPriority ?ri)
                   (if mergingTmpIdx ?ri then IndexPrefix demoTable else RecordPrefix demoTable)
                   (StartKey (?ranges ! 0)) (EndKey (?ranges ! 0))) \<noteq> EndKey (?ranges ! 0)"
    by (simp add: demoReorgInfo_def demoTable_def store_defs)
  from getBatchTasks_endInclude [OF r, of 0] getBatchTasks_endInclude [OF r, of 1] len e0
  have "endInclude (batchTasks ! 0)" "endInclude (batchTasks ! 1)"
    by simp_all
  with r len show ?thesis by blast
qed

text \<open>
  The claim as stated has the two cases the other way round. First batch: the first
  range ends at \<open>[.., 9]\<close>, its last existing key is \<open>[.., 5]\<close>, and \<^verbatim>\<open>endInclude\<close> is true.
  Second batch: the first range ends at the existing key \<open>[.., 5]\<close>, the two ends are equal,
  the range is not the last, and \<^verbatim>\<open>endInclude\<close> is false.
\<close>

theorem getBatchTasks_endInclude_counterexample:
  "fst (getRangeEndKey (demoStore [([116, 1, 95, 114, 5], []), ([116, 1, 95, 114, 20], [])]) 0
          [116, 1, 95, 114] [116, 1, 95, 114] [116, 1, 95, 114, 9]) \<noteq> [116, 1, 95, 114, 9] \<and>
   (\<exists>batchTasks.
      getBatchTasks demoTable
        (demoReorgInfo [([116, 1, 95, 114, 5], []), ([116, 1, 95, 114, 20], [])])
        [\<lparr>StartKey = [116, 1, 95, 114], EndKey = [116, 1, 95, 114, 9]\<rparr>,
         \<lparr>StartKey = [116, 1, 95, 114, 9], EndKey = [116, 1, 95, 114, 20]\<rparr>] 1024
        = Inr batchTasks \<and> endInclude (batchTasks ! 0) = True) \<and>
   fst (getRangeEndKey (demoStore [([116, 1, 95, 114, 5], []), ([116, 1, 95, 114, 20], [])]) 0
          [116, 1, 95, 114] [116, 1, 95, 114] [116, 1, 95, 114, 5]) = [116, 1, 95, 114, 5] \<and>
   (\<exists>batchTasks.
      getBatchTasks demoTable
        (demoReorgInfo [([116, 1, 95, 114, 5], []), ([116, 1, 95, 114, 20], [])])
        [\<lparr>StartKey = [116, 1, 95, 114], EndKey = [116, 1, 95, 114, 5]\<rparr>,
         \<lparr>StartKey = [116, 1, 95, 114, 5], EndKey = [116, 1, 95, 114, 20]\<rparr>] 1024
        = Inr batchTasks \<and> endInclude (batchTasks ! 0) = False)"
  by (simp add: batch_defs store_defs)


subsection \<open>Iterating over the keys of a snapshot\<close>
















lemma rowKeys_Nil: "rowKeys keyPrefix [] = []"
  by (simp add: rowKeys_def)











subsection \<open>Handling one task in a worker\<close>

lemma tracedEnv_sel:
  "env_isReorgRunnable (tracedEnv env) j d (w, cs) = env_isReorgRunnable env j d w"
  "env_BackfillData (tracedEnv env) r (w, cs) =
     (case env_BackfillData env r w of
        (Inl e, w1) \<Rightarrow> (Inl e, (w1, cs))
      | (Inr taskCtx, w1) \<Rightarrow> (Inr taskCtx, (w1, cs @ [taskCtx])))"
  "env_AddMetricInfo (tracedEnv env) n (w, cs) = (env_AddMetricInfo env n w, cs)"
  "env_increaseRowCount (tracedEnv env) n (w, cs) = (env_increaseRowCount env n w, cs)"
  "env_mergeWarnings (tracedEnv env) ws wc (w, cs) = (env_mergeWarnings env ws wc w, cs)"
  "env_initPartitionIndexInfo (tracedEnv env) t (w, cs) = (env_initPartitionIndexInfo env t w, cs)"
  "env_genBackfillJobReorgCtxID (tracedEnv env) = env_genBackfillJobReorgCtxID env"
  "env_timeNow (tracedEnv env) (w, cs) = env_timeNow env w"
  "env_updateInstanceLease (tracedEnv env) = env_updateInstanceLease env"
  "env_uuid (tracedEnv env) = env_uuid env"
  "env_GetOracleTime (tracedEnv env) (w, cs) = env_GetOracleTime env w"
  "env_GetLeaseGoTime (tracedEnv env) = env_GetLeaseGoTime env"
  "env_UpdateTask (tracedEnv env) job (w, cs) =
     (case env_UpdateTask env job w of (e, w1) \<Rightarrow> (e, (w1, cs)))"
  by (simp_all add: tracedEnv_def)

lemma updateLease_traced:
  "updateLease (tracedEnv env) execID job nextK (w, cs) = (e, job1, (w1, cs1)) \<Longrightarrow> cs1 = cs"
  by (auto simp: updateLease_def tracedEnv_def Let_def split: sum.splits prod.splits)

lemma batchesMerged_err: "batchesMerged start cs (result\<lparr>res_err := e\<rparr>) = batchesMerged start cs result"
  by (simp add: batchesMerged_def)

lemma batchesMerged_merge:
  "batchesMerged start cs result \<Longrightarrow>
     batchesMerged start (cs @ [taskCtx]) (mergeBackfillCtxToResult taskCtx result)"
  by (simp add: batchesMerged_def mergeBackfillCtxToResult_def)

lemma handleBackfillTaskLoop_merged:
  assumes "handleBackfillTaskLoop (tracedEnv env) fuel jobID1 handleRange batchStartTime result (w, cs)
             = Some (result', handleRange', (w', cs'))"
    and "batchesMerged start cs result"
  shows "batchesMerged start cs' result' \<and> taskID result' = taskID result"
  using assms
proof (induction fuel arbitrary: handleRange batchStartTime result w cs)
  case 0
  then show ?case by simp
next
  case (Suc fuel)
  note run = Suc.prems(1) and inv = Suc.prems(2)
  show ?case
  proof (cases "env_isReorgRunnable env jobID1 (bfJob handleRange \<noteq> None) w")
    case (Some e)
    with run have "result' = result\<lparr>res_err := Some e\<rparr>" "cs' = cs"
      by (auto simp: tracedEnv_sel Let_def)
    with inv show ?thesis by (simp add: batchesMerged_err)
  next
    case None
    obtain r w1 where bd: "env_BackfillData env handleRange w = (r, w1)"
      by (cases "env_BackfillData env handleRange w")
    show ?thesis
    proof (cases r)
      case (Inl e)
      with run None bd have "result' = result\<lparr>res_err := Some e\<rparr>" "cs' = cs"
        by (auto simp: tracedEnv_sel Let_def)
      with inv show ?thesis by (simp add: batchesMerged_err)
    next
      case (Inr taskCtx)
      define result1 where "result1 = mergeBackfillCtxToResult taskCtx result"
      define handleRange1 where "handleRange1 = handleRange\<lparr>task_startKey := tc_nextKey taskCtx\<rparr>"
      define w4 where "w4 = env_mergeWarnings env (tc_warnings taskCtx) (tc_warningsCount taskCtx)
          (env_increaseRowCount env (tc_addedCount taskCtx)
            (env_AddMetricInfo env (tc_addedCount taskCtx) w1))"
      have inv1: "batchesMerged start (cs @ [taskCtx]) result1"
        unfolding result1_def using inv by (rule batchesMerged_merge)
      have id1: "taskID result1 = taskID result"
        by (simp add: result1_def mergeBackfillCtxToResult_def)
      have step: "handleBackfillTaskLoop (tracedEnv env) (Suc fuel) jobID1 handleRange batchStartTime
            result (w, cs) =
          (if tc_done taskCtx then Some (result1, handleRange1, (w4, cs @ [taskCtx]))
           else
             (case bfJob handleRange1 of
                None \<Rightarrow>
                  handleBackfillTaskLoop (tracedEnv env) fuel jobID1 handleRange1 batchStartTime
                    result1 (w4, cs @ [taskCtx])
              | Some job \<Rightarrow>
                  if env_timeNow env w4 - batchStartTime < env_updateInstanceLease env
                  then handleBackfillTaskLoop (tracedEnv env) fuel jobID1 handleRange1
                         batchStartTime result1 (w4, cs @ [taskCtx])
                  else
                    (case updateLease (tracedEnv env) (env_uuid env) job (res_nextKey result1)
                            (w4, cs @ [taskCtx]) of
                       (Some e, job1, w5) \<Rightarrow>
                         Some (result1\<lparr>res_err := Some e\<rparr>,
                               handleRange1\<lparr>bfJob := Some job1\<rparr>, w5)
                     | (None, job1, w5) \<Rightarrow>
                         handleBackfillTaskLoop (tracedEnv env) fuel jobID1
                           (handleRange1\<lparr>bfJob := Some job1\<rparr>)
                           (env_timeNow env w4) result1 w5)))"
        using None bd Inr
        by (simp add: tracedEnv_sel Let_def result1_def handleRange1_def w4_def
            cong: option.case_cong if_cong)
      show ?thesis
      proof (cases "tc_done taskCtx")
        case True
        with run step have "result' = result1" "cs' = cs @ [taskCtx]" by simp_all
        with inv1 id1 show ?thesis by simp
      next
        case notdone: False
        show ?thesis
        proof (cases "bfJob handleRange1")
          case None
          with run step notdone have "handleBackfillTaskLoop (tracedEnv env) fuel jobID1
              handleRange1 batchStartTime result1 (w4, cs @ [taskCtx])
              = Some (result', handleRange', (w', cs'))" by simp
          from Suc.IH [OF this inv1] id1 show ?thesis by simp
        next
          case (Some job)
          show ?thesis
          proof (cases "env_timeNow env w4 - batchStartTime < env_updateInstanceLease env")
            case True
            with run step notdone Some have "handleBackfillTaskLoop (tracedEnv env) fuel jobID1
                handleRange1 batchStartTime result1 (w4, cs @ [taskCtx])
                = Some (result', handleRange', (w', cs'))" by simp
            from Suc.IH [OF this inv1] id1 show ?thesis by simp
          next
            case False
            obtain e job1 w5 cs5 where ul: "updateLease (tracedEnv env) (env_uuid env) job
                (res_nextKey result1) (w4, cs @ [taskCtx]) = (e, job1, (w5, cs5))"
              by (metis prod.exhaust)
            from updateLease_traced [OF ul] have cs5: "cs5 = cs @ [taskCtx]" .
            show ?thesis
            proof (cases e)
              case None
              with run step notdone Some False ul cs5 have
                "handleBackfillTaskLoop (tracedEnv env) fuel jobID1
                   (handleRange1\<lparr>bfJob := Some job1\<rparr>) (env_timeNow env w4) result1
                   (w5, cs @ [taskCtx]) = Some (result', handleRange', (w', cs'))" by simp
              from Suc.IH [OF this inv1] id1 show ?thesis by simp
            next
              case (Some e1)
              with run step notdone \<open>bfJob handleRange1 = Some job\<close> False ul cs5
              have "result' = result1\<lparr>res_err := Some e1\<rparr>" "cs' = cs @ [taskCtx]"
                by simp_all
              with inv1 id1 show ?thesis by (simp add: batchesMerged_err)
            qed
          qed
        qed
      qed
    qed
  qed
qed


text \<open>
  Claim C10. Whenever \<^verbatim>\<open>handleBackfillTask\<close> returns a result, in particular one with an
  error, its \<^verbatim>\<open>nextKey\<close> is the task's \<^verbatim>\<open>startKey\<close> if no batch was committed before
  (the error arose at the first runnability check or the first \<^verbatim>\<open>BackfillData\<close> call) and
  otherwise the \<^verbatim>\<open>nextKey\<close> of the last committed batch; \<^verbatim>\<open>addedCount\<close> and
  \<^verbatim>\<open>scanCount\<close> are the sums over the committed batches.
\<close>

theorem handleBackfillTask_result_of_committed:
  assumes "handleBackfillTask (tracedEnv env) fuel task (w, [])
             = Some (result, handleRange', (w', committed))"
  shows "taskID result = task_id task \<and>
         res_nextKey result =
           (if committed = [] then task_startKey task else tc_nextKey (last committed)) \<and>
         addedCount result = sum_list (map tc_addedCount committed) \<and>
         scanCount result = sum_list (map tc_scanCount committed)"
proof -
  let ?result0 = "\<lparr>taskID = task_id task, addedCount = 0, scanCount = 0,
                    res_nextKey = task_startKey task, res_err = None\<rparr>"
  have start: "batchesMerged (task_startKey task) [] ?result0"
    by (simp add: batchesMerged_def)
  obtain jobID1 batchStartTime w1 where
    "handleBackfillTaskLoop (tracedEnv env) fuel jobID1 task batchStartTime ?result0 (w1, [])
       = Some (result, handleRange', (w', committed))"
    using assms
    by (cases "bfJob task = None")
       (auto simp: handleBackfillTask_def Let_def tracedEnv_sel)
  from handleBackfillTaskLoop_merged [OF this start]
  show ?thesis by (simp add: batchesMerged_def)
qed

lemmas handle_defs =
  handleBackfillTask_def tracedEnv_sel demoEnv_def demoTask_def demoBatchCtx_def getJobID_def
  mergeBackfillCtxToResult_def Let_def

theorem handleBackfillTask_result_of_committed_witness:
  "(\<exists>result handleRange' w'.
      handleBackfillTask (tracedEnv (demoEnv None None)) 5 (demoTask 0 [1] [9] True) (0, [])
        = Some (result, handleRange', (w', [demoBatchCtx [1, 1], demoBatchCtx [1, 1, 1]])) \<and>
      res_err result = Some (ErrOther []) \<and> res_nextKey result = [1, 1, 1] \<and>
      addedCount result = 6 \<and> scanCount result = 8) \<and>
   (\<exists>result handleRange' w'.
      handleBackfillTask (tracedEnv (demoEnv (Some ErrReorgPanic) None)) 5 (demoTask 0 [1] [9] True) (0, [])
        = Some (result, handleRange', (w', [])) \<and>
      res_err result = Some ErrReorgPanic \<and> res_nextKey result = [1] \<and>
      addedCount result = 0 \<and> scanCount result = 0) \<and>
   (\<exists>result handleRange' w'.
      handleBackfillTask (tracedEnv (demoEnv None (Some ErrNotExist))) 5
        ((demoTask 0 [1] [9] True)\<lparr>bfJob := Some demoJob\<rparr>) (0, [])
        = Some (result, handleRange', (w', [demoBatchCtx [1, 1]])) \<and>
      res_err result = Some ErrNotExist \<and> res_nextKey result = [1, 1] \<and>
      addedCount result = 3 \<and> scanCount result = 4)"
proof (intro conjI)
  have "\<exists>result handleRange' w'.
      handleBackfillTask (tracedEnv (demoEnv None None)) 5 (demoTask 0 [1] [9] True) (0, [])
        = Some (result, handleRange', (w', [demoBatchCtx [1, 1], demoBatchCtx [1, 1, 1]])) \<and>
      res_err result = Some (ErrOther [])"
    by (simp add: handle_defs numeral_nat)
  then obtain result handleRange' w' where
    run: "handleBackfillTask (tracedEnv (demoEnv None None)) 5 (demoTask 0 [1] [9] True) (0, [])
        = Some (result, handleRange', (w', [demoBatchCtx [1, 1], demoBatchCtx [1, 1, 1]]))"
    and e: "res_err result = Some (ErrOther [])" by blast
  from handleBackfillTask_result_of_committed [OF run]
  have "res_nextKey result = [1, 1, 1] \<and> addedCount result = 6 \<and> scanCount result = 8"
    by (simp add: demoBatchCtx_def demoTask_def)
  with run e show "\<exists>result handleRange' w'.
      handleBackfillTask (tracedEnv (demoEnv None None)) 5 (demoTask 0 [1] [9] True) (0, [])
        = Some (result, handleRange', (w', [demoBatchCtx [1, 1], demoBatchCtx [1, 1, 1]])) \<and>
      res_err result = Some (ErrOther []) \<and> res_nextKey result = [1, 1, 1] \<and>
      addedCount result = 6 \<and> scanCount result = 8"
    by blast
next
  have "\<exists>result handleRange' w'.
      handleBackfillTask (tracedEnv (demoEnv (Some ErrReorgPanic) None)) 5 (demoTask 0 [1] [9] True) (0, [])
        = Some (result, handleRange', (w', [])) \<and> res_err result = Some ErrReorgPanic"
    by (simp add: handle_defs numeral_nat)
  then obtain result handleRange' w' where
    run: "handleBackfillTask (tracedEnv (demoEnv (Some ErrReorgPanic) None)) 5 (demoTask 0 [1] [9] True)
        (0, []) = Some (result, handleRange', (w', []))"
    and e: "res_err result = Some ErrReorgPanic" by blast
  from handleBackfillTask_result_of_committed [OF run]
  have "res_nextKey result = [1] \<and> addedCount result = 0 \<and> scanCount result = 0"
    by (simp add: demoTask_def)
  with run e show "\<exists>result handleRange' w'.
      handleBackfillTask (tracedEnv (demoEnv (Some ErrReorgPanic) None)) 5 (demoTask 0 [1] [9] True) (0, [])
        = Some (result, handleRange', (w', [])) \<and>
      res_err result = Some ErrReorgPanic \<and> res_nextKey result = [1] \<and>
      addedCount result = 0 \<and> scanCount result = 0"
    by blast
next
  let ?task = "(demoTask 0 [1] [9] True)\<lparr>bfJob := Some demoJob\<rparr>"
  have "\<exists>result handleRange' w'.
      handleBackfillTask (tracedEnv (demoEnv None (Some ErrNotExist))) 5 ?task (0, [])
        = Some (result, handleRange', (w', [demoBatchCtx [1, 1]])) \<and>
      res_err result = Some ErrNotExist"
    by (simp add: handle_defs numeral_nat updateLease_def demoJob_def)
  then obtain result handleRange' w' where
    run: "handleBackfillTask (tracedEnv (demoEnv None (Some ErrNotExist))) 5 ?task (0, [])
        = Some (result, handleRange', (w', [demoBatchCtx [1, 1]]))"
    and e: "res_err result = Some ErrNotExist" by blast
  from handleBackfillTask_result_of_committed [OF run]
  have "res_nextKey result = [1, 1] \<and> addedCount result = 3 \<and> scanCount result = 4"
    by (simp add: demoBatchCtx_def demoTask_def)
  with run e show "\<exists>result handleRange' w'.
      handleBackfillTask (tracedEnv (demoEnv None (Some ErrNotExist))) 5 ?task (0, [])
        = Some (result, handleRange', (w', [demoBatchCtx [1, 1]])) \<and>
      res_err result = Some ErrNotExist \<and> res_nextKey result = [1, 1] \<and>
      addedCount result = 3 \<and> scanCount result = 4"
    by blast
qed


end
